theory Spec2Isabelle
  imports Complex_Main "HOL-Library.Extended_Nat" "HOL-Library.Sublist" "HOL-Library.AList"
begin

section \<open>Values, errors and Python string primitives\<close>

text \<open>
  Times are Python floats in the program; they are modelled as rationals. Sums, midpoints
  and the quotient of line 42 are taken exactly; the one comparison of times that decides a
  branch (line 150) is made on the difference rounded to a double, as the program makes
  it. NaN and the infinities are not modelled. Chunk durations and the threshold are
  Python ints. Strings are the UTF-8 encodings of the program's strings.
\<close>

type_synonym time = rat

text \<open>
  Rounding to the nearest double (binary64: 53 significant bits, ties to even, gradual
  underflow below \<open>2 powi - 1022\<close>; overflow to infinity is not modelled).
  \<open>binade y\<close> is the exponent \<open>e\<close> with \<open>2 powi e \<le> y < 2 powi (e + 1)\<close>, for \<open>y > 0\<close>.
\<close>

function bit_length :: "nat \<Rightarrow> nat" where
  "bit_length n = (if n = 0 then 0 else Suc (bit_length (n div 2)))"
  by pat_completeness auto
termination
  by (relation "measure id") auto

declare bit_length.simps [simp del]

definition binade :: "rat \<Rightarrow> int" where
  "binade y =
     (if 1 \<le> y then int (bit_length (nat \<lfloor>y\<rfloor>)) - 1
      else - int (bit_length (nat (\<lceil>1 / y\<rceil> - 1))))"

definition round_half_even :: "rat \<Rightarrow> int" where
  "round_half_even y =
     (let f = \<lfloor>y\<rfloor>; r = y - of_int f
      in if r < 1 / 2 then f else if 1 / 2 < r then f + 1 else if even f then f else f + 1)"

definition round_double :: "rat \<Rightarrow> rat" where
  "round_double x =
     (if x = 0 then 0
      else let k = max (binade \<bar>x\<bar> - 52) (- 1074)
           in of_int (round_half_even (x / 2 powi k)) * 2 powi k)"

datatype error =
    ExternalToolError
  | ValueError
  | IndexError
  | UnboundLocalError
  | JSONDecodeError
  | ZeroDivisionError
  | FileNotFoundError
  | IsADirectoryError
  | TypeError
  | UnicodeDecodeError

text \<open>Sequencing of fallible steps: the first raised exception ends the computation.\<close>

definition ebind :: "error + 'a \<Rightarrow> ('a \<Rightarrow> error + 'b) \<Rightarrow> error + 'b" where
  "ebind m f = (case m of Inl e \<Rightarrow> Inl e | Inr x \<Rightarrow> f x)"

text \<open>\<open>sub in s\<close> for strings.\<close>

fun contains :: "string \<Rightarrow> string \<Rightarrow> bool" where
  "contains sub [] = (sub = [])"
| "contains sub (c # cs) = (prefix sub (c # cs) \<or> contains sub cs)"

text \<open>
  \<open>s.split(sep)\<close> for a non-empty separator: the pieces between the non-overlapping
  occurrences of \<open>sep\<close>, found from the left. Every separator of the program is a
  non-empty literal.
\<close>

function split_aux :: "string \<Rightarrow> string \<Rightarrow> string \<Rightarrow> string list" where
  "split_aux sep acc [] = [rev acc]"
| "split_aux sep acc (c # cs) =
     (if prefix sep (c # cs) then rev acc # split_aux sep [] (drop (length sep - 1) cs)
      else split_aux sep (c # acc) cs)"
  by pat_completeness auto
termination
  by (relation "measure (\<lambda>(sep, acc, s). length s)") auto

definition py_split :: "string \<Rightarrow> string \<Rightarrow> string list" where
  "py_split sep s = split_aux sep [] s"

text \<open>
  \<open>s.splitlines()\<close>: a line ends at LF, CR, CR LF, VT, FF, FS, GS, RS, NEL (U+0085),
  LINE SEPARATOR (U+2028) or PARAGRAPH SEPARATOR (U+2029); the terminators are not kept,
  and an empty last piece is not a line. In UTF-8 the last three are the bytes C2 85,
  E2 80 A8 and E2 80 A9. \<open>break_length s\<close> is the length of the terminator \<open>s\<close>
  starts with, 0 when it starts with none.
\<close>

definition is_linebreak :: "char \<Rightarrow> bool" where
  "is_linebreak c = ((of_char c :: nat) \<in> {10, 11, 12, 13, 28, 29, 30})"

definition break_length :: "string \<Rightarrow> nat" where
  "break_length s =
     (let b = map of_char (take 3 s) :: nat list
      in if prefix [13, 10] b then 2
         else if prefix [194, 133] b then 2
         else if prefix [226, 128, 168] b \<or> prefix [226, 128, 169] b then 3
         else case s of [] \<Rightarrow> 0 | c # _ \<Rightarrow> if is_linebreak c then 1 else 0)"

function splitlines_aux :: "string \<Rightarrow> string \<Rightarrow> string list" where
  "splitlines_aux acc [] = (if acc = [] then [] else [rev acc])"
| "splitlines_aux acc (c # cs) =
     (if break_length (c # cs) = 0 then splitlines_aux (c # acc) cs
      else rev acc # splitlines_aux [] (drop (break_length (c # cs) - 1) cs))"
  by pat_completeness auto
termination
  by (relation "measure (\<lambda>(acc, s). length s)") auto

declare splitlines_aux.simps [simp del]

definition splitlines :: "string \<Rightarrow> string list" where
  "splitlines s = splitlines_aux [] s"

text \<open>
  \<open>b.decode('utf-8')\<close>: the bytes must be well-formed UTF-8 (no stray, missing or
  overlong byte, no surrogate, nothing above U+10FFFF); the string is then these bytes.
  \<open>seq_length bs\<close> is the length of the well-formed sequence \<open>bs\<close> starts with, 0 when
  it starts with none.
\<close>

definition nth_in :: "nat list \<Rightarrow> nat \<Rightarrow> nat \<Rightarrow> nat \<Rightarrow> bool" where
  "nth_in bs i lo hi = (i < length bs \<and> lo \<le> bs ! i \<and> bs ! i \<le> hi)"

definition seq_length :: "nat list \<Rightarrow> nat" where
  "seq_length bs =
     (if nth_in bs 0 0 127 then 1
      else if nth_in bs 0 194 223 \<and> nth_in bs 1 128 191 then 2
      else if nth_in bs 0 224 224 \<and> nth_in bs 1 160 191 \<and> nth_in bs 2 128 191 then 3
      else if (nth_in bs 0 225 236 \<or> nth_in bs 0 238 239) \<and> nth_in bs 1 128 191 \<and>
              nth_in bs 2 128 191 then 3
      else if nth_in bs 0 237 237 \<and> nth_in bs 1 128 159 \<and> nth_in bs 2 128 191 then 3
      else if nth_in bs 0 240 240 \<and> nth_in bs 1 144 191 \<and> nth_in bs 2 128 191 \<and>
              nth_in bs 3 128 191 then 4
      else if nth_in bs 0 241 243 \<and> nth_in bs 1 128 191 \<and> nth_in bs 2 128 191 \<and>
              nth_in bs 3 128 191 then 4
      else if nth_in bs 0 244 244 \<and> nth_in bs 1 128 143 \<and> nth_in bs 2 128 191 \<and>
              nth_in bs 3 128 191 then 4
      else 0)"

function utf8_valid :: "string \<Rightarrow> bool" where
  "utf8_valid [] = True"
| "utf8_valid (c # cs) =
     (let n = seq_length (map of_char (take 4 (c # cs)))
      in n \<noteq> 0 \<and> utf8_valid (drop (n - 1) cs))"
  by pat_completeness auto
termination
  by (relation "measure length") auto

declare utf8_valid.simps [simp del]

definition decode_utf8 :: "string \<Rightarrow> error + string" where
  "decode_utf8 b = (if utf8_valid b then Inr b else Inl UnicodeDecodeError)"

text \<open>Decimal digits, \<open>str(n)\<close> and \<open>int(s)\<close>.\<close>

definition is_digit :: "char \<Rightarrow> bool" where
  "is_digit c = (c \<in> set ''0123456789'')"

definition digit_char :: "nat \<Rightarrow> char" where
  "digit_char n = ''0123456789'' ! (n mod 10)"

definition digit_val :: "char \<Rightarrow> nat" where
  "digit_val c = (of_char c :: nat) - 48"

function string_of_nat :: "nat \<Rightarrow> string" where
  "string_of_nat n =
     (if n < 10 then [digit_char n] else string_of_nat (n div 10) @ [digit_char n])"
  by pat_completeness auto
termination
  by (relation "measure id") auto

declare string_of_nat.simps [simp del]

definition string_of_int :: "int \<Rightarrow> string" where
  "string_of_int i = (if i < 0 then CHR ''-'' # string_of_nat (nat (- i)) else string_of_nat (nat i))"

definition nat_of_digits :: "string \<Rightarrow> nat" where
  "nat_of_digits s = foldl (\<lambda>a c. 10 * a + digit_val c) 0 s"

definition is_space :: "char \<Rightarrow> bool" where
  "is_space c = ((of_char c :: nat) \<in> {9, 10, 11, 12, 13, 32})"

definition strip :: "string \<Rightarrow> string" where
  "strip s = rev (dropWhile is_space (rev (dropWhile is_space s)))"

definition int_of_digits :: "string \<Rightarrow> int option" where
  "int_of_digits u = (if u \<noteq> [] \<and> list_all is_digit u then Some (int (nat_of_digits u)) else None)"

text \<open>
  \<open>int(s)\<close> for an ASCII string: surrounding whitespace (space, TAB, LF, VT, FF, CR) is
  ignored, one sign is allowed, then at least one decimal digit; anything else raises
  ValueError (\<open>None\<close>). Python also accepts single underscores between digits; the
  program calls \<open>int\<close> only on a piece of \<open>split('_')\<close> and on a match of \<open>\d+\<close>,
  which contain none. Digits and spaces outside ASCII, which \<open>int\<close> and \<open>\d\<close> also
  accept, are not modelled.
\<close>

definition py_int :: "string \<Rightarrow> int option" where
  "py_int s =
     (case strip s of
        [] \<Rightarrow> None
      | c # cs \<Rightarrow>
          if c = CHR ''-'' then map_option uminus (int_of_digits cs)
          else if c = CHR ''+'' then int_of_digits cs
          else int_of_digits (c # cs))"

text \<open>
  \<open>os.path.join(a, b)\<close> and the root part of \<open>os.path.splitext(p)\<close> on POSIX paths.
\<close>

definition path_join :: "string \<Rightarrow> string \<Rightarrow> string" where
  "path_join a b =
     (if prefix ''/'' b then b
      else if a = [] \<or> suffix ''/'' a then a @ b
      else a @ ''/'' @ b)"

definition splitext_root :: "string \<Rightarrow> string" where
  "splitext_root p =
     (let base = rev (takeWhile (\<lambda>c. c \<noteq> CHR ''/'') (rev p));
          ext = rev (takeWhile (\<lambda>c. c \<noteq> CHR ''.'') (rev base));
          stem = take (length base - length ext - 1) base
      in if CHR ''.'' \<in> set base \<and> filter (\<lambda>c. c \<noteq> CHR ''.'') stem \<noteq> []
         then take (length p - length ext - 1) p
         else p)"

section \<open>The silence detector's parser (detect_silence, lines 79-90)\<close>

text \<open>
  \<open>float(text)\<close> is a Python builtin; the parser takes it as a parameter \<open>pf\<close>, with
  \<open>None\<close> for ValueError. The local variable \<open>start\<close> is unbound until a line with
  the start marker has been parsed: \<open>None\<close> in the loop state.
\<close>

definition has_start :: "string \<Rightarrow> bool" where
  "has_start line = contains ''silence_start'' line"

definition has_end :: "string \<Rightarrow> bool" where
  "has_end line = contains ''silence_end'' line"

text \<open>Line 85: \<open>float(line.split('silence_start: ')[1])\<close>.\<close>

definition parse_start :: "(string \<Rightarrow> time option) \<Rightarrow> string \<Rightarrow> error + time" where
  "parse_start pf line =
     (case py_split ''silence_start: '' line of
        _ # x # _ \<Rightarrow> (case pf x of None \<Rightarrow> Inl ValueError | Some v \<Rightarrow> Inr v)
      | _ \<Rightarrow> Inl IndexError)"

text \<open>Line 87: \<open>float(line.split('silence_end: ')[1].split(' |')[0])\<close>.\<close>

definition parse_end :: "(string \<Rightarrow> time option) \<Rightarrow> string \<Rightarrow> error + time" where
  "parse_end pf line =
     (case py_split ''silence_end: '' line of
        _ # x # _ \<Rightarrow>
          (case py_split '' |'' x of
             y # _ \<Rightarrow> (case pf y of None \<Rightarrow> Inl ValueError | Some v \<Rightarrow> Inr v)
           | [] \<Rightarrow> Inl IndexError)
      | _ \<Rightarrow> Inl IndexError)"

text \<open>The loop body, lines 84-88: two independent \<open>if\<close>s, the start marker first.\<close>

definition parse_line ::
  "(string \<Rightarrow> time option) \<Rightarrow> string \<Rightarrow> time option \<times> (time \<times> time) list
     \<Rightarrow> error + time option \<times> (time \<times> time) list" where
  "parse_line pf line st =
     (case st of (start, silences) \<Rightarrow>
        ebind (if has_start line then ebind (parse_start pf line) (\<lambda>v. Inr (Some v))
               else Inr start)
          (\<lambda>start'.
             if has_end line
             then ebind (parse_end pf line)
                    (\<lambda>e. case start' of
                           None \<Rightarrow> Inl UnboundLocalError
                         | Some s \<Rightarrow> Inr (start', silences @ [(s, e)]))
             else Inr (start', silences)))"

fun parse_lines ::
  "(string \<Rightarrow> time option) \<Rightarrow> string list \<Rightarrow> time option \<times> (time \<times> time) list
     \<Rightarrow> error + time option \<times> (time \<times> time) list" where
  "parse_lines pf [] st = Inr st"
| "parse_lines pf (l # ls) st = ebind (parse_line pf l st) (parse_lines pf ls)"

definition parse_silences :: "(string \<Rightarrow> time option) \<Rightarrow> string list \<Rightarrow> error + (time \<times> time) list" where
  "parse_silences pf ls = ebind (parse_lines pf ls (None, [])) (\<lambda>st. Inr (snd st))"

definition parse_stderr :: "(string \<Rightarrow> time option) \<Rightarrow> string \<Rightarrow> error + (time \<times> time) list" where
  "parse_stderr pf text = parse_silences pf (splitlines text)"

section \<open>The external engine and the file system\<close>

text \<open>
  The media engine is a black box. What the program asks of it is recorded as a value of
  type \<open>call\<close>; the answers are a parameter of the model (\<open>env\<close>).
\<close>

datatype call =
    Probe string
  | ExtractChunk string int int string
  | SilenceDetect string int time
  | ExtractSplit string time "time option" string string string
  | ExtractFrame string time string

text \<open>
  \<open>ExtractChunk input ss t output\<close> is the call of lines 57-62,
  \<open>SilenceDetect wav threshold d\<close> that of lines 71-77,
  \<open>ExtractSplit input ss to output acodec format\<close> that of lines 164-169 (with
  \<open>to = None\<close>: lines 188-193, which pass no end), and
  \<open>ExtractFrame input ss output\<close> that of lines 105-110.
\<close>

record probe_info =
  streams :: "(string \<times> string) list"
  format_name :: string
  duration :: time

text \<open>
  \<open>streams\<close> lists (codec_type, codec_name) of each stream. \<open>probe\<close> returns
  \<open>None\<close> when the engine cannot open the file, \<open>run_ok\<close> says whether a call
  succeeds, \<open>stderr_of\<close> gives the bytes of the diagnostic output of a silence
  detection, and \<open>float_of\<close> is Python's \<open>float\<close>.
\<close>

record env =
  probe :: "string \<Rightarrow> probe_info option"
  run_ok :: "call \<Rightarrow> bool"
  stderr_of :: "string \<Rightarrow> int \<Rightarrow> time \<Rightarrow> string"
  float_of :: "string \<Rightarrow> time option"

text \<open>
  A JSON value as \<open>json.load\<close> returns it: None, a bool, a number, a string, a list or
  a dict (its items in order, the keys distinct). The literals NaN and Infinity, which
  \<open>json.load\<close> also accepts, are not modelled.
\<close>

datatype json =
    JNull
  | JBool bool
  | JNum time
  | JStr string
  | JList "json list"
  | JObj "(string \<times> json) list"

text \<open>
  What line 232 writes for a list of (start, end) tuples: a list of two-element lists.
\<close>

definition silence_json :: "(time \<times> time) list \<Rightarrow> json" where
  "silence_json silences = JList (map (\<lambda>(start, end). JList [JNum start, JNum end]) silences)"

text \<open>
  A file is a directory, JSON text, the output of an engine call, or other data that is
  not JSON.
\<close>

datatype content =
    Directory
  | JsonFile json
  | EngineOutput call
  | OtherData string

text \<open>
  The file system is an association list from path to content, in the order
  \<open>os.listdir\<close> reports; \<open>calls\<close> is the log of engine calls made so far.
\<close>

record world =
  fs :: "(string \<times> content) list"
  calls :: "call list"

definition path_exists :: "world \<Rightarrow> string \<Rightarrow> bool" where
  "path_exists w p = (map_of (fs w) p \<noteq> None)"

definition write_file :: "world \<Rightarrow> string \<Rightarrow> content \<Rightarrow> world" where
  "write_file w p c = w\<lparr>fs := AList.update p c (fs w)\<rparr>"

text \<open>Lines 34-35 and 114-115; \<open>os.makedirs('')\<close> raises.\<close>

definition ensure_dir :: "world \<Rightarrow> string \<Rightarrow> error + world" where
  "ensure_dir w d =
     (if path_exists w d then Inr w
      else if d = [] then Inl FileNotFoundError
      else Inr (write_file w d Directory))"

text \<open>The names \<open>os.listdir(d)\<close> returns: the entries directly below \<open>d\<close>.\<close>

definition dir_prefix :: "string \<Rightarrow> string" where
  "dir_prefix d = path_join d []"

definition child_name :: "string \<Rightarrow> string \<Rightarrow> string option" where
  "child_name d p =
     (let pre = dir_prefix d;
          f = drop (length pre) p
      in if prefix pre p \<and> f \<noteq> [] \<and> CHR ''/'' \<notin> set f then Some f else None)"

definition listdir :: "world \<Rightarrow> string \<Rightarrow> string list" where
  "listdir w d = List.map_filter (child_name d) (map fst (fs w))"

text \<open>An engine run that writes \<open>out\<close> (with \<open>overwrite_output\<close>), and a probe.\<close>

definition engine_run :: "env \<Rightarrow> world \<Rightarrow> call \<Rightarrow> string \<Rightarrow> error + world" where
  "engine_run E w c out =
     (if run_ok E c
      then Inr (write_file (w\<lparr>calls := calls w @ [c]\<rparr>) out (EngineOutput c))
      else Inl ExternalToolError)"

definition engine_probe :: "env \<Rightarrow> world \<Rightarrow> string \<Rightarrow> error + world \<times> probe_info" where
  "engine_probe E w p =
     (case probe E p of
        None \<Rightarrow> Inl ExternalToolError
      | Some info \<Rightarrow> Inr (w\<lparr>calls := calls w @ [Probe p]\<rparr>, info))"

section \<open>get_audio_codec (lines 21-30)\<close>

definition get_audio_codec :: "env \<Rightarrow> world \<Rightarrow> string \<Rightarrow> error + world \<times> string \<times> string" where
  "get_audio_codec E w mkv_file =
     ebind (engine_probe E w mkv_file)
       (\<lambda>(w', info).
          case filter (\<lambda>s. fst s = ''audio'') (streams info) of
            [] \<Rightarrow> Inl ValueError
          | s # _ \<Rightarrow> Inr (w', snd s, hd (py_split '','' (format_name info))))"

section \<open>The chunker: extract_audio_chunks (lines 33-66)\<close>

definition chunk_path :: "string \<Rightarrow> nat \<Rightarrow> string" where
  "chunk_path output_dir i = path_join output_dir (''chunk_'' @ string_of_nat (i + 1) @ ''.wav'')"

fun chunk_loop ::
  "env \<Rightarrow> string \<Rightarrow> string \<Rightarrow> int \<Rightarrow> nat list \<Rightarrow> world \<times> string list
     \<Rightarrow> error + world \<times> string list" where
  "chunk_loop E mkv_file output_dir chunk_duration [] st = Inr st"
| "chunk_loop E mkv_file output_dir chunk_duration (i # is) st =
     (case st of (w, chunk_files) \<Rightarrow>
        let start_time = int i * chunk_duration;
            output_chunk = chunk_path output_dir i
        in ebind (if path_exists w output_chunk then Inr w
                  else engine_run E w
                         (ExtractChunk mkv_file start_time chunk_duration output_chunk)
                         output_chunk)
             (\<lambda>w'. chunk_loop E mkv_file output_dir chunk_duration is
                      (w', chunk_files @ [output_chunk])))"

definition num_chunks :: "time \<Rightarrow> int \<Rightarrow> int" where
  "num_chunks dur chunk_duration = \<lceil>dur / of_int chunk_duration\<rceil>"

definition extract_audio_chunks ::
  "env \<Rightarrow> world \<Rightarrow> string \<Rightarrow> string \<Rightarrow> int \<Rightarrow> error + world \<times> string list" where
  "extract_audio_chunks E w mkv_file output_dir chunk_duration =
     ebind (ensure_dir w output_dir)
       (\<lambda>w1. ebind (engine_probe E w1 mkv_file)
          (\<lambda>(w2, info).
             if chunk_duration = 0 then Inl ZeroDivisionError
             else chunk_loop E mkv_file output_dir chunk_duration
                    [0 ..< nat (num_chunks (duration info) chunk_duration)] (w2, [])))"

section \<open>detect_silence (lines 69-90)\<close>

definition detect_silence ::
  "env \<Rightarrow> world \<Rightarrow> string \<Rightarrow> int \<Rightarrow> time \<Rightarrow> error + world \<times> (time \<times> time) list" where
  "detect_silence E w wav_file silence_threshold silence_duration =
     (let c = SilenceDetect wav_file silence_threshold silence_duration
      in if run_ok E c
         then ebind (decode_utf8 (stderr_of E wav_file silence_threshold silence_duration))
                (\<lambda>stderr_output.
                   ebind (parse_stderr (float_of E) stderr_output)
                     (\<lambda>silences. Inr (w\<lparr>calls := calls w @ [c]\<rparr>, silences)))
         else Inl ExternalToolError)"

section \<open>sort_chunks (lines 93-99)\<close>

text \<open>
  \<open>re.search(r'chunk_(\d+)', filename)\<close>: the leftmost place where \<open>chunk_\<close> is
  followed by a digit, with the longest run of digits there; \<open>float('inf')\<close> when there
  is none.
\<close>

fun extract_chunk_number :: "string \<Rightarrow> enat" where
  "extract_chunk_number [] = \<infinity>"
| "extract_chunk_number (c # cs) =
     (let ds = takeWhile is_digit (drop 6 (c # cs))
      in if prefix ''chunk_'' (c # cs) \<and> ds \<noteq> [] then enat (nat_of_digits ds)
         else extract_chunk_number cs)"

text \<open>\<open>sorted\<close> is stable, as \<open>sort_key\<close> is.\<close>

definition sort_chunks :: "string list \<Rightarrow> string list" where
  "sort_chunks chunk_files = sort_key extract_chunk_number chunk_files"

section \<open>The splitter: split_original_by_silence (lines 113-199)\<close>

text \<open>Lines 122-125: the sidecar caches of this threshold among the directory's entries.\<close>

definition cache_suffix :: "int \<Rightarrow> string" where
  "cache_suffix silence_threshold = ''_silence_'' @ string_of_int silence_threshold @ ''.json''"

definition is_cache_name :: "int \<Rightarrow> string \<Rightarrow> bool" where
  "is_cache_name silence_threshold f =
     (suffix (cache_suffix silence_threshold) f \<and> \<not> prefix ''.'' f)"

definition cache_files :: "world \<Rightarrow> string \<Rightarrow> int \<Rightarrow> string list" where
  "cache_files w output_dir silence_threshold =
     filter (is_cache_name silence_threshold) (listdir w output_dir)"

text \<open>
  Line 144 iterates over the loaded value, unpacks each item into \<open>start, end\<close> and adds
  the offset to both. Iterating a list gives its elements, a dict its keys, a string its
  characters; None, a bool and a number cannot be iterated (TypeError).
\<close>

definition is_continuation :: "char \<Rightarrow> bool" where
  "is_continuation c = ((of_char c :: nat) div 64 = 2)"

function chars_of :: "string \<Rightarrow> string list" where
  "chars_of [] = []"
| "chars_of (c # cs) =
     (c # takeWhile is_continuation cs) # chars_of (dropWhile is_continuation cs)"
  by pat_completeness auto
termination
  by (relation "measure length") (auto simp: length_dropWhile_le less_Suc_eq_le)

definition json_items :: "json \<Rightarrow> error + json list" where
  "json_items v =
     (case v of
        JList xs \<Rightarrow> Inr xs
      | JObj kvs \<Rightarrow> Inr (map (\<lambda>kv. JStr (fst kv)) kvs)
      | JStr s \<Rightarrow> Inr (map JStr (chars_of s))
      | _ \<Rightarrow> Inl TypeError)"

text \<open>
  \<open>start, end = item\<close>: the item must be iterable (else TypeError) and give exactly two
  values (else ValueError).
\<close>

definition unpack_pair :: "json \<Rightarrow> error + json \<times> json" where
  "unpack_pair item =
     (case json_items item of
        Inl e \<Rightarrow> Inl e
      | Inr [a, b] \<Rightarrow> Inr (a, b)
      | Inr _ \<Rightarrow> Inl ValueError)"

text \<open>
  \<open>x + chunk_offset\<close> with an int offset: defined for numbers and for bools (True is 1),
  TypeError otherwise.
\<close>

definition json_add :: "json \<Rightarrow> int \<Rightarrow> error + time" where
  "json_add x chunk_offset =
     (case x of
        JNum v \<Rightarrow> Inr (v + of_int chunk_offset)
      | JBool b \<Rightarrow> Inr ((if b then 1 else 0) + of_int chunk_offset)
      | _ \<Rightarrow> Inl TypeError)"

fun adjust_pairs :: "int \<Rightarrow> json list \<Rightarrow> error + (time \<times> time) list" where
  "adjust_pairs chunk_offset [] = Inr []"
| "adjust_pairs chunk_offset (item # items) =
     ebind (unpack_pair item)
       (\<lambda>(start, end). ebind (json_add start chunk_offset)
          (\<lambda>s. ebind (json_add end chunk_offset)
             (\<lambda>e. ebind (adjust_pairs chunk_offset items) (\<lambda>rest. Inr ((s, e) # rest)))))"

text \<open>
  Lines 142-144: the chunk number is the second piece of the file name split at
  underscores; the offset is (number - 1) * chunk_duration.
\<close>

definition adjust_silences ::
  "string \<Rightarrow> int \<Rightarrow> json \<Rightarrow> error + (time \<times> time) list" where
  "adjust_silences chunk_file chunk_duration silences =
     (case py_split ''_'' chunk_file of
        _ # x # _ \<Rightarrow>
          (case py_int x of
             None \<Rightarrow> Inl ValueError
           | Some n \<Rightarrow>
               let chunk_idx = n - 1;
                   chunk_offset = chunk_idx * chunk_duration
               in ebind (json_items silences) (adjust_pairs chunk_offset))
      | _ \<Rightarrow> Inl IndexError)"

text \<open>
  Lines 138-139: \<open>json.load\<close> of a cache file; a file that does not hold JSON text
  raises.
\<close>

definition load_json :: "world \<Rightarrow> string \<Rightarrow> error + json" where
  "load_json w p =
     (case map_of (fs w) p of
        None \<Rightarrow> Inl FileNotFoundError
      | Some Directory \<Rightarrow> Inl IsADirectoryError
      | Some (JsonFile v) \<Rightarrow> Inr v
      | Some _ \<Rightarrow> Inl JSONDecodeError)"

text \<open>The loop of lines 133-145.\<close>

fun load_silences ::
  "world \<Rightarrow> string \<Rightarrow> int \<Rightarrow> string list \<Rightarrow> (time \<times> time) list
     \<Rightarrow> error + (time \<times> time) list" where
  "load_silences w output_dir chunk_duration [] all_silences = Inr all_silences"
| "load_silences w output_dir chunk_duration (chunk_file # rest) all_silences =
     ebind (load_json w (path_join output_dir chunk_file))
       (\<lambda>silences. ebind (adjust_silences chunk_file chunk_duration silences)
          (\<lambda>adjusted_silences.
             load_silences w output_dir chunk_duration rest (all_silences @ adjusted_silences)))"

text \<open>extract_middle_frame, lines 102-110.\<close>

definition extract_middle_frame ::
  "env \<Rightarrow> world \<Rightarrow> string \<Rightarrow> time \<Rightarrow> time \<Rightarrow> string \<Rightarrow> error + world" where
  "extract_middle_frame E w mkv_file start_time end_time output_image =
     (let middle_time = (start_time + end_time) / 2
      in engine_run E w (ExtractFrame mkv_file middle_time output_image) output_image)"

definition split_audio_path :: "string \<Rightarrow> nat \<Rightarrow> string \<Rightarrow> string" where
  "split_audio_path output_dir split_count container_format =
     path_join output_dir (''split_'' @ string_of_nat (split_count + 1) @ ''.'' @ container_format)"

definition split_image_path :: "string \<Rightarrow> nat \<Rightarrow> string" where
  "split_image_path output_dir split_count =
     path_join output_dir (''split_'' @ string_of_nat (split_count + 1) @ ''.jpg'')"

text \<open>
  The loop of lines 148-178. The state is the world, \<open>prev_end\<close> and \<open>split_count\<close>.
\<close>

fun walk_silences ::
  "env \<Rightarrow> string \<Rightarrow> string \<Rightarrow> string \<Rightarrow> string \<Rightarrow> (time \<times> time) list
     \<Rightarrow> world \<times> time \<times> nat \<Rightarrow> error + world \<times> time \<times> nat" where
  "walk_silences E mkv_file output_dir audio_codec container_format [] st = Inr st"
| "walk_silences E mkv_file output_dir audio_codec container_format (silence # rest) st =
     (case st of (w, prev_end, split_count) \<Rightarrow>
      case silence of (silence_start, silence_end) \<Rightarrow>
        if round_double (silence_start - prev_end) < 10
        then walk_silences E mkv_file output_dir audio_codec container_format rest
               (w, silence_end, split_count + 1)
        else
          let output_audio = split_audio_path output_dir split_count container_format;
              output_image = split_image_path output_dir split_count
          in ebind (if path_exists w output_audio then Inr w
                    else engine_run E w
                           (ExtractSplit mkv_file prev_end (Some silence_start) output_audio
                              audio_codec container_format)
                           output_audio)
               (\<lambda>w1. ebind (if path_exists w1 output_image then Inr w1
                             else extract_middle_frame E w1 mkv_file prev_end silence_start
                                    output_image)
                  (\<lambda>w2. walk_silences E mkv_file output_dir audio_codec container_format rest
                           (w2, silence_end, split_count + 1))))"

text \<open>Lines 181-199: the rest of the source after the last silence.\<close>

definition final_split ::
  "env \<Rightarrow> string \<Rightarrow> string \<Rightarrow> string \<Rightarrow> string \<Rightarrow> world \<times> time \<times> nat \<Rightarrow> error + world" where
  "final_split E mkv_file output_dir audio_codec container_format st =
     (case st of (w, prev_end, split_count) \<Rightarrow>
        let final_audio = split_audio_path output_dir split_count container_format;
            final_image = split_image_path output_dir split_count
        in ebind (if path_exists w final_audio then Inr w
                  else engine_run E w
                         (ExtractSplit mkv_file prev_end None final_audio
                            audio_codec container_format)
                         final_audio)
             (\<lambda>w1. if path_exists w1 final_image then Inr w1
                    else ebind (engine_probe E w1 mkv_file)
                           (\<lambda>(w2, info).
                              extract_middle_frame E w2 mkv_file prev_end (duration info)
                                final_image)))"

definition split_original_by_silence ::
  "env \<Rightarrow> world \<Rightarrow> string \<Rightarrow> string \<Rightarrow> int \<Rightarrow> int \<Rightarrow> error + world" where
  "split_original_by_silence E w mkv_file output_dir chunk_duration silence_threshold =
     ebind (ensure_dir w output_dir)
       (\<lambda>w1.
          let chunk_files = sort_chunks (cache_files w1 output_dir silence_threshold)
          in ebind (get_audio_codec E w1 mkv_file)
               (\<lambda>(w2, audio_codec, container_format).
                  ebind (load_silences w2 output_dir chunk_duration chunk_files [])
                    (\<lambda>all_silences.
                       ebind (walk_silences E mkv_file output_dir audio_codec container_format
                                all_silences (w2, 0, 0))
                         (final_split E mkv_file output_dir audio_codec container_format))))"

section \<open>The pipeline: process_mkv_file (lines 212-236)\<close>

definition silence_cache_file :: "string \<Rightarrow> int \<Rightarrow> string" where
  "silence_cache_file chunk_file silence_threshold =
     splitext_root chunk_file @ cache_suffix silence_threshold"

text \<open>The loop of lines 217-232.\<close>

fun detect_loop :: "env \<Rightarrow> int \<Rightarrow> time \<Rightarrow> string list \<Rightarrow> world \<Rightarrow> error + world" where
  "detect_loop E silence_threshold silence_duration [] w = Inr w"
| "detect_loop E silence_threshold silence_duration (chunk_file # rest) w =
     (let cache = silence_cache_file chunk_file silence_threshold
      in ebind (if path_exists w cache then Inr w
                else ebind (detect_silence E w chunk_file silence_threshold silence_duration)
                       (\<lambda>(w', silences). Inr (write_file w' cache (JsonFile (silence_json silences)))))
           (detect_loop E silence_threshold silence_duration rest))"

text \<open>
  \<open>output_dir\<close> is the directory computed in lines 204-208 from the path of the source.
\<close>

definition process_mkv_file ::
  "env \<Rightarrow> world \<Rightarrow> string \<Rightarrow> string \<Rightarrow> int \<Rightarrow> int \<Rightarrow> time \<Rightarrow> error + world" where
  "process_mkv_file E w mkv_file output_dir chunk_duration silence_threshold silence_duration =
     ebind (extract_audio_chunks E w mkv_file output_dir chunk_duration)
       (\<lambda>(w1, chunk_files).
          ebind (detect_loop E silence_threshold silence_duration chunk_files w1)
            (\<lambda>w2. split_original_by_silence E w2 mkv_file output_dir chunk_duration
                     silence_threshold))"

text \<open>
  The name under which lines 49 and 221 store the cache of the chunk numbered \<open>n\<close>
  (the chunk with loop index \<open>n - 1\<close>).
\<close>

definition cache_name :: "nat \<Rightarrow> int \<Rightarrow> string" where
  "cache_name n silence_threshold = ''chunk_'' @ string_of_nat n @ cache_suffix silence_threshold"

section \<open>Concrete inputs\<close>

text \<open>
  \<open>float\<close> on integer numerals such as \<open>2000\<close> or \<open>-3\<close>: where it answers, Python's
  \<open>float\<close> gives the same value. It is used only to run the parser on such texts.
\<close>

definition float_plain :: "string \<Rightarrow> time option" where
  "float_plain s = map_option of_int (py_int s)"

text \<open>
  An engine that opens only \<open>in.mkv\<close> (one video and one audio stream, a Matroska
  container, duration \<open>T\<close>), never fails, and reports one silence in the first chunk.
\<close>

definition demo_stderr :: string where
  "demo_stderr =
     ''[silencedetect @ 0x1] silence_start: 2000\<newline>[silencedetect @ 0x1] silence_end: 2010 | silence_duration: 10\<newline>''"

definition demo_env :: "time \<Rightarrow> env" where
  "demo_env T =
     \<lparr>probe = (\<lambda>p. if p = ''in.mkv''
                   then Some \<lparr>streams = [(''video'', ''h264''), (''audio'', ''aac'')],
                              format_name = ''matroska,webm'', duration = T\<rparr>
                   else None),
      run_ok = (\<lambda>c. True),
      stderr_of = (\<lambda>wav thr d. if wav = ''out/chunk_1.wav'' then demo_stderr else []),
      float_of = float_plain\<rparr>"

definition empty_world :: world where
  "empty_world = \<lparr>fs = [], calls = []\<rparr>"

text \<open>
  An output directory holding the two chunks and their caches, with the one silence
  (2000, 2010) in the first; the directory lists the second cache before the first.
\<close>

definition cached_world :: world where
  "cached_world =
     \<lparr>fs = [(''out'', Directory),
             (''out/chunk_2_silence_-40.json'', JsonFile (silence_json [])),
             (''out/chunk_1.wav'', OtherData ''RIFF''),
             (''out/chunk_2.wav'', OtherData ''RIFF''),
             (''out/chunk_1_silence_-40.json'', JsonFile (silence_json [(2000, 2010)]))],
      calls = []\<rparr>"

text \<open>That directory after the splitter has run on it.\<close>

definition split_world :: world where
  "split_world =
     \<lparr>fs = fs cached_world @
        [(''out/split_1.matroska'',
          EngineOutput (ExtractSplit ''in.mkv'' 0 (Some 2000) ''out/split_1.matroska'' ''aac'' ''matroska'')),
         (''out/split_1.jpg'', EngineOutput (ExtractFrame ''in.mkv'' 1000 ''out/split_1.jpg'')),
         (''out/split_2.matroska'',
          EngineOutput (ExtractSplit ''in.mkv'' 2010 None ''out/split_2.matroska'' ''aac'' ''matroska'')),
         (''out/split_2.jpg'', EngineOutput (ExtractFrame ''in.mkv'' 3705 ''out/split_2.jpg''))],
      calls =
        [Probe ''in.mkv'',
         ExtractSplit ''in.mkv'' 0 (Some 2000) ''out/split_1.matroska'' ''aac'' ''matroska'',
         ExtractFrame ''in.mkv'' 1000 ''out/split_1.jpg'',
         ExtractSplit ''in.mkv'' 2010 None ''out/split_2.matroska'' ''aac'' ''matroska'',
         Probe ''in.mkv'',
         ExtractFrame ''in.mkv'' 3705 ''out/split_2.jpg'']\<rparr>"

text \<open>The world after the whole pipeline has run once from an empty file system.\<close>

definition done_world :: world where
  "done_world =
     \<lparr>fs = [(''out'', Directory),
             (''out/chunk_1.wav'', EngineOutput (ExtractChunk ''in.mkv'' 0 2700 ''out/chunk_1.wav'')),
             (''out/chunk_2.wav'', EngineOutput (ExtractChunk ''in.mkv'' 2700 2700 ''out/chunk_2.wav'')),
             (''out/chunk_1_silence_-40.json'', JsonFile (silence_json [(2000, 2010)])),
             (''out/chunk_2_silence_-40.json'', JsonFile (silence_json [])),
             (''out/split_1.matroska'',
              EngineOutput (ExtractSplit ''in.mkv'' 0 (Some 2000) ''out/split_1.matroska'' ''aac'' ''matroska'')),
             (''out/split_1.jpg'', EngineOutput (ExtractFrame ''in.mkv'' 1000 ''out/split_1.jpg'')),
             (''out/split_2.matroska'',
              EngineOutput (ExtractSplit ''in.mkv'' 2010 None ''out/split_2.matroska'' ''aac'' ''matroska'')),
             (''out/split_2.jpg'', EngineOutput (ExtractFrame ''in.mkv'' 3705 ''out/split_2.jpg''))],
      calls =
        [Probe ''in.mkv'',
         ExtractChunk ''in.mkv'' 0 2700 ''out/chunk_1.wav'',
         ExtractChunk ''in.mkv'' 2700 2700 ''out/chunk_2.wav'',
         SilenceDetect ''out/chunk_1.wav'' (- 40) 2,
         SilenceDetect ''out/chunk_2.wav'' (- 40) 2,
         Probe ''in.mkv'',
         ExtractSplit ''in.mkv'' 0 (Some 2000) ''out/split_1.matroska'' ''aac'' ''matroska'',
         ExtractFrame ''in.mkv'' 1000 ''out/split_1.jpg'',
         ExtractSplit ''in.mkv'' 2010 None ''out/split_2.matroska'' ''aac'' ''matroska'',
         Probe ''in.mkv'',
         ExtractFrame ''in.mkv'' 3705 ''out/split_2.jpg'']\<rparr>"

text \<open>
  The output directory with one cache whose first silence ends at \<open>1 / 2 ^ 60\<close> and
  whose second begins at 10: the difference is below 10 and its nearest double is 10.
\<close>

definition near_ten_world :: world where
  "near_ten_world =
     \<lparr>fs = [(''out'', Directory),
            (''out/chunk_1_silence_-40.json'', JsonFile (silence_json [(0, 1 / 2 ^ 60), (10, 20)]))],
      calls = []\<rparr>"

text \<open>
  The output directory with the cache of the first chunk and one more cache, whose name
  has no chunk number.
\<close>

definition stray_world :: world where
  "stray_world =
     \<lparr>fs = [(''out'', Directory),
             (''out/notes_silence_-40.json'', JsonFile (silence_json [])),
             (''out/chunk_1_silence_-40.json'', JsonFile (silence_json [(2000, 2010)]))],
      calls = []\<rparr>"

section \<open>Notions used in the statements\<close>

text \<open>The engine calls made between two worlds.\<close>

definition new_calls :: "world \<Rightarrow> world \<Rightarrow> call list" where
  "new_calls w w' = drop (length (calls w)) (calls w')"

text \<open>An extraction with an explicit end (lines 164-169), and its length.\<close>

fun split_length :: "call \<Rightarrow> time option" where
  "split_length (ExtractSplit m ss (Some e) p a f) = Some (e - ss)"
| "split_length c = None"

text \<open>
  The stream made of the given lines, each ended by a line feed; a text with no line
  terminator in it; and the state of the loop of lines 83-88 (the variable \<open>start\<close>,
  unbound as \<open>None\<close>, and the list \<open>silences\<close>) after the whole stream.
\<close>

definition stream_of :: "string list \<Rightarrow> string" where
  "stream_of ls = concat (map (\<lambda>l. l @ ''\<newline>'') ls)"

fun no_break :: "string \<Rightarrow> bool" where
  "no_break [] = True"
| "no_break (c # cs) = (break_length (c # cs) = 0 \<and> no_break cs)"

definition loop_state ::
  "(string \<Rightarrow> time option) \<Rightarrow> string \<Rightarrow> error + time option \<times> (time \<times> time) list" where
  "loop_state pf text = parse_lines pf (splitlines text) (None, [])"

fun is_probe :: "call \<Rightarrow> bool" where
  "is_probe (Probe p) = True"
| "is_probe c = False"

section \<open>Rounding to a double\<close>

lemma bit_length_bounds: "0 < n \<Longrightarrow> 2 ^ (bit_length n - 1) \<le> n \<and> n < 2 ^ bit_length n"
proof (induction n rule: bit_length.induct)
  case (1 n)
  show ?case
  proof (cases "n div 2 = 0")
    case True
    with 1(2) have "n = 1" by (simp add: div_eq_0_iff)
    then show ?thesis by (simp add: bit_length.simps)
  next
    case False
    then have h: "0 < n div 2" by simp
    define b where "b = bit_length (n div 2)"
    from 1(1) 1(2) h have ih: "(2::nat) ^ (b - 1) \<le> n div 2" "n div 2 < (2::nat) ^ b"
      unfolding b_def by simp_all
    have bl: "bit_length n = Suc b"
      unfolding b_def using 1(2) by (subst bit_length.simps) simp
    have pos: "0 < b"
      unfolding b_def using h by (subst bit_length.simps) simp
    then obtain c where c: "b = Suc c" by (cases b) simp_all
    from ih c have "(2::nat) ^ c \<le> n div 2" by simp
    then have "(2::nat) * 2 ^ c \<le> 2 * (n div 2)" by simp
    also have "\<dots> \<le> n" by simp
    finally have lo: "(2::nat) ^ b \<le> n" using c by simp
    from ih have "n div 2 + 1 \<le> (2::nat) ^ b" by simp
    then have "2 * (n div 2 + 1) \<le> 2 * (2::nat) ^ b" by simp
    moreover have "n < 2 * (n div 2 + 1)" by simp
    ultimately have hi: "n < (2::nat) ^ Suc b" by simp
    from lo hi bl show ?thesis by simp
  qed
qed

lemma bit_length_pos: "0 < n \<Longrightarrow> 0 < bit_length n"
  by (subst bit_length.simps) simp

lemma pow_nat_rat_le: "(2::nat) ^ a \<le> n \<Longrightarrow> (2::rat) ^ a \<le> of_nat n"
proof -
  assume "(2::nat) ^ a \<le> n"
  then have "(of_nat ((2::nat) ^ a) :: rat) \<le> of_nat n" by (simp only: of_nat_le_iff)
  then show ?thesis by simp
qed

lemma pow_nat_rat_less: "n < (2::nat) ^ a \<Longrightarrow> (of_nat n :: rat) + 1 \<le> 2 ^ a"
proof -
  assume "n < (2::nat) ^ a"
  then have "n + 1 \<le> (2::nat) ^ a" by simp
  then have "(of_nat (n + 1) :: rat) \<le> of_nat ((2::nat) ^ a)" by (simp only: of_nat_le_iff)
  then show ?thesis by simp
qed

lemma binade_bounds:
  assumes "0 < y"
  shows "2 powi binade y \<le> y \<and> y < 2 powi (binade y + 1)"
proof (cases "1 \<le> y")
  case True
  define n where "n = nat \<lfloor>y\<rfloor>"
  define b where "b = bit_length n"
  from True have "1 \<le> \<lfloor>y\<rfloor>" by simp
  then have n: "0 < n" and fn: "of_nat n = (of_int \<lfloor>y\<rfloor> :: rat)"
    unfolding n_def by simp_all
  from bit_length_bounds [OF n] have lo: "(2::nat) ^ (b - 1) \<le> n" and hi: "n < (2::nat) ^ b"
    unfolding b_def by simp_all
  from bit_length_pos [OF n] have bp: "0 < b" unfolding b_def .
  have fl: "(of_nat n :: rat) \<le> y" "y < of_nat n + 1"
    unfolding fn by linarith+
  from pow_nat_rat_le [OF lo] fl(1) have 1: "(2::rat) ^ (b - 1) \<le> y" by linarith
  from pow_nat_rat_less [OF hi] fl(2) have 2: "y < (2::rat) ^ b" by linarith
  have e: "binade y = int b - 1" using True by (simp add: binade_def b_def n_def)
  from bp have "nat (int b - 1) = b - 1" "0 \<le> int b - 1" by simp_all
  then have p1: "(2::rat) powi (int b - 1) = 2 ^ (b - 1)"
    by (simp add: power_int_def)
  have p2: "(2::rat) powi (int b - 1 + 1) = 2 ^ b"
    by (simp add: power_int_def)
  from 1 2 show ?thesis unfolding e p1 p2 by simp
next
  case False
  define z where "z = 1 / y"
  define k where "k = nat (\<lceil>z\<rceil> - 1)"
  define b where "b = bit_length k"
  from False assms have z1: "1 < z" unfolding z_def by simp
  then have c1: "1 < \<lceil>z\<rceil>" by (simp add: less_ceiling_iff)
  then have k: "0 < k" and fk: "(of_nat k :: rat) = of_int \<lceil>z\<rceil> - 1"
    unfolding k_def by simp_all
  from bit_length_bounds [OF k] have lo: "(2::nat) ^ (b - 1) \<le> k" and hi: "k < (2::nat) ^ b"
    unfolding b_def by simp_all
  from bit_length_pos [OF k] have bp: "0 < b" unfolding b_def .
  have ce: "(of_nat k :: rat) < z" "z \<le> of_nat k + 1"
    unfolding fk by linarith+
  from pow_nat_rat_le [OF lo] ce(1) have a: "(2::rat) ^ (b - 1) < z" by linarith
  from pow_nat_rat_less [OF hi] ce(2) have b': "z \<le> (2::rat) ^ b" by linarith
  have e: "binade y = - int b" using False by (simp add: binade_def b_def k_def z_def)
  have p1: "(2::rat) powi (- int b) = 1 / 2 ^ b"
    using bp by (simp add: power_int_def inverse_eq_divide power_one_over)
  have p2: "(2::rat) powi (- int b + 1) = 1 / 2 ^ (b - 1)"
  proof (cases "b = 1")
    case True
    then show ?thesis by simp
  next
    case False
    with bp have "nat (int b - 1) = b - 1" "\<not> 0 \<le> - int b + 1" by simp_all
    then show ?thesis by (simp add: power_int_def inverse_eq_divide power_one_over)
  qed
  from b' assms have 1: "1 / 2 ^ b \<le> y"
    unfolding z_def by (simp add: field_simps)
  from a assms have 2: "y < 1 / 2 ^ (b - 1)"
    unfolding z_def by (simp add: field_simps)
  from 1 2 show ?thesis unfolding e p1 p2 by simp
qed


lemma round_half_even_near:
  "of_int (round_half_even y) \<le> y + 1 / 2 \<and> y - 1 / 2 \<le> of_int (round_half_even y)"
proof -
  define r where "r = y - of_int \<lfloor>y\<rfloor>"
  have r: "0 \<le> r" "r < 1" unfolding r_def by linarith+
  have y: "y = of_int \<lfloor>y\<rfloor> + r" unfolding r_def by simp
  have "round_half_even y = \<lfloor>y\<rfloor> \<and> r \<le> 1 / 2 \<or> round_half_even y = \<lfloor>y\<rfloor> + 1 \<and> 1 / 2 \<le> r"
    unfolding round_half_even_def Let_def r_def [symmetric] by auto
  then show ?thesis
  proof
    assume "round_half_even y = \<lfloor>y\<rfloor> \<and> r \<le> 1 / 2"
    with r y show ?thesis by linarith
  next
    assume a: "round_half_even y = \<lfloor>y\<rfloor> + 1 \<and> 1 / 2 \<le> r"
    then have "(of_int (round_half_even y) :: rat) = of_int \<lfloor>y\<rfloor> + 1" by simp
    with a r y show ?thesis by linarith
  qed
qed

lemma round_half_even_less_even:
  assumes "even N"
  shows "round_half_even y < N \<longleftrightarrow> y < of_int N - 1 / 2"
proof
  assume a: "round_half_even y < N"
  show "y < of_int N - 1 / 2"
  proof (rule ccontr)
    assume "\<not> y < of_int N - 1 / 2"
    then have ge: "of_int N - 1 / 2 \<le> y" by simp
    have fl: "of_int \<lfloor>y\<rfloor> \<le> y" "y < of_int \<lfloor>y\<rfloor> + 1" by linarith+
    from ge fl(2) have "of_int N - 1 / 2 < (of_int \<lfloor>y\<rfloor> :: rat) + 1" by linarith
    then have "(of_int N :: rat) < of_int (\<lfloor>y\<rfloor> + 2)" by simp
    then have "N < \<lfloor>y\<rfloor> + 2" by (simp only: of_int_less_iff)
    then have c: "N - 1 \<le> \<lfloor>y\<rfloor>" by simp
    show False
    proof (cases "N \<le> \<lfloor>y\<rfloor>")
      case True
      have "\<lfloor>y\<rfloor> \<le> round_half_even y" by (simp add: round_half_even_def Let_def)
      with True a show False by simp
    next
      case False
      with c have f: "\<lfloor>y\<rfloor> = N - 1" by simp
      with assms have odd: "odd \<lfloor>y\<rfloor>" by simp
      from ge f have "1 / 2 \<le> y - of_int \<lfloor>y\<rfloor>" by simp
      with odd have "round_half_even y = \<lfloor>y\<rfloor> + 1"
        by (auto simp: round_half_even_def Let_def)
      with f a show False by simp
    qed
  qed
next
  assume a: "y < of_int N - 1 / 2"
  have fl: "of_int \<lfloor>y\<rfloor> \<le> y" by linarith
  with a have "(of_int \<lfloor>y\<rfloor> :: rat) < of_int N" by linarith
  then have c: "\<lfloor>y\<rfloor> \<le> N - 1" by simp
  show "round_half_even y < N"
  proof (cases "\<lfloor>y\<rfloor> = N - 1")
    case True
    with a have "y - of_int \<lfloor>y\<rfloor> < 1 / 2" by simp
    then have "round_half_even y = \<lfloor>y\<rfloor>" by (simp add: round_half_even_def Let_def)
    with True show ?thesis by simp
  next
    case False
    with c have "\<lfloor>y\<rfloor> + 1 < N" by simp
    moreover have "round_half_even y \<le> \<lfloor>y\<rfloor> + 1" by (simp add: round_half_even_def Let_def)
    ultimately show ?thesis by simp
  qed
qed

lemma powi_pos: "0 < (2::rat) powi k"
  by (simp add: power_int_def)

lemma powi_mono: "a \<le> b \<Longrightarrow> (2::rat) powi a \<le> 2 powi b"
  by (rule power_int_increasing) simp_all

lemma powi_less_imp: "(2::rat) powi a < 2 powi b \<Longrightarrow> a < b"
proof (rule ccontr)
  assume l: "(2::rat) powi a < 2 powi b" and "\<not> a < b"
  then have "b \<le> a" by simp
  from powi_mono [OF this] l show False by simp
qed

lemma round_to_near:
  assumes "0 < p"
  shows "of_int (round_half_even (x / p)) * p \<le> x + p / 2 \<and>
         x - p / 2 \<le> of_int (round_half_even (x / p)) * p"
proof -
  from round_half_even_near [of "x / p"] assms
  have "of_int (round_half_even (x / p)) * p \<le> (x / p + 1 / 2) * p"
    and "(x / p - 1 / 2) * p \<le> of_int (round_half_even (x / p)) * p"
    by (simp_all only: mult_le_cancel_right_pos) 
  with assms show ?thesis by (simp add: algebra_simps)
qed

text \<open>The comparison of line 150.\<close>

lemma round_double_less_10: "round_double x < 10 \<longleftrightarrow> x < 10 - 1 / 2 ^ 50"
proof -
  consider "x \<le> 0" | "0 < x" "x < 8" | "8 \<le> x" "x < 16" | "16 \<le> x" by linarith
  then show ?thesis
  proof cases
    case 1
    show ?thesis
    proof (cases "x = 0")
      case True
      then show ?thesis by (simp add: round_double_def)
    next
      case False
      define k where "k = max (binade \<bar>x\<bar> - 52) (- 1074)"
      have r: "round_double x = of_int (round_half_even (x / 2 powi k)) * 2 powi k"
        using False by (simp add: round_double_def Let_def k_def)
      from round_to_near [OF powi_pos, of x k] 1 powi_pos [of k]
      have "round_double x \<le> x + 2 powi k / 2" unfolding r by simp
      moreover have "x / 2 powi k \<le> 0" using 1 powi_pos [of k] by (simp add: divide_le_0_iff)
      with round_half_even_near [of "x / 2 powi k"]
      have "(of_int (round_half_even (x / 2 powi k)) :: rat) < of_int 1" by simp
      then have "round_half_even (x / 2 powi k) < 1" by (simp only: of_int_less_iff)
      then have "round_half_even (x / 2 powi k) \<le> 0" by simp
      then have "round_double x \<le> 0"
        unfolding r using powi_pos [of k] by (simp add: mult_le_0_iff)
      ultimately show ?thesis using 1 by simp
    qed
  next
    case 2
    define k where "k = max (binade \<bar>x\<bar> - 52) (- 1074)"
    have r: "round_double x = of_int (round_half_even (x / 2 powi k)) * 2 powi k"
      using 2 by (simp add: round_double_def Let_def k_def)
    from binade_bounds [of x] 2 have "2 powi binade x \<le> x" by simp
    moreover have p3: "(2::rat) powi 3 = 8" by simp
    ultimately have "(2::rat) powi binade x < 2 powi 3" using 2 by linarith
    then have "binade x < 3" by (rule powi_less_imp)
    then have "k \<le> 0" using 2 by (simp add: k_def)
    from powi_mono [OF this] have p1: "(2::rat) powi k \<le> 1" by simp
    from round_to_near [OF powi_pos, of x k] have "round_double x \<le> x + 2 powi k / 2"
      unfolding r by simp
    with p1 2 have "round_double x < 10" by linarith
    moreover from 2 have "x < 10 - 1 / 2 ^ 50" by simp
    ultimately show ?thesis by simp
  next
    case 4
    define e where "e = binade x"
    from binade_bounds [of x] 4 have b: "2 powi e \<le> x" "x < 2 powi (e + 1)"
      unfolding e_def by simp_all
    have p4: "(2::rat) powi 4 = 16" by simp
    from 4 b(2) have "(2::rat) powi 4 < 2 powi (e + 1)" unfolding p4 by linarith
    then have e4: "4 < e + 1" by (rule powi_less_imp)
    then have k: "max (binade \<bar>x\<bar> - 52) (- 1074) = e - 52" using 4 by (simp add: e_def)
    have r: "round_double x = of_int (round_half_even (x / 2 powi (e - 52))) * 2 powi (e - 52)"
      using 4 k by (simp add: round_double_def Let_def)
    have "(2::rat) powi (e - 52) \<le> 2 powi (e - 2)" by (rule powi_mono) simp
    also have "\<dots> = 2 powi e / 4" by (simp add: power_int_diff)
    finally have p: "(2::rat) powi (e - 52) \<le> x / 4" using b(1) by simp
    from round_to_near [OF powi_pos, of x "e - 52"]
    have "x - 2 powi (e - 52) / 2 \<le> round_double x" unfolding r by simp
    with p 4 have "10 \<le> round_double x" by linarith
    with 4 show ?thesis by simp
  next
    case 3
    define e where "e = binade x"
    from binade_bounds [of x] 3 have b: "2 powi e \<le> x" "x < 2 powi (e + 1)"
      unfolding e_def by simp_all
    have p4: "(2::rat) powi 4 = 16" and p3: "(2::rat) powi 3 = 8" by simp_all
    from 3 b have "(2::rat) powi e < 2 powi 4" unfolding p4 by linarith
    then have "e < 4" by (rule powi_less_imp)
    from 3 b have "(2::rat) powi 3 < 2 powi (e + 1)" unfolding p3 by linarith
    then have "3 < e + 1" by (rule powi_less_imp)
    note \<open>e < 4\<close> \<open>3 < e + 1\<close>
    then have e: "e = 3" by simp
    have k: "max (binade \<bar>x\<bar> - 52) (- 1074) = - 49" using 3 e by (simp add: e_def)
    have p: "(2::rat) powi (- 49) = 1 / 2 ^ 49" by (simp add: power_int_def inverse_eq_divide power_one_over)
    have r: "round_double x = of_int (round_half_even (x * 2 ^ 49)) / 2 ^ 49"
      using 3 k p by (simp add: round_double_def Let_def)
    have ev: "even (10 * 2 ^ 49 :: int)" by simp
    have "round_double x < 10 \<longleftrightarrow> of_int (round_half_even (x * 2 ^ 49)) < (10 * 2 ^ 49 :: rat)"
      unfolding r by (simp add: divide_less_eq)
    also have "\<dots> \<longleftrightarrow> round_half_even (x * 2 ^ 49) < 10 * 2 ^ 49"
    proof -
      have "(10 * 2 ^ 49 :: rat) = of_int (10 * 2 ^ 49)" by simp
      then show ?thesis by (simp only: of_int_less_iff)
    qed
    also have "\<dots> \<longleftrightarrow> x * 2 ^ 49 < of_int (10 * 2 ^ 49) - 1 / 2"
      by (rule round_half_even_less_even [OF ev])
    also have "\<dots> \<longleftrightarrow> x < 10 - 1 / 2 ^ 50"
      by (simp add: field_simps)
    finally show ?thesis .
  qed
qed

section \<open>Facts\<close>

lemma ebind_simps [simp]: "ebind (Inl e) f = Inl e" "ebind (Inr x) f = f x"
  by (simp_all add: ebind_def)

lemma lt_ten_cases:
  "(m::nat) < 10 \<Longrightarrow> m = 0 \<or> m = 1 \<or> m = 2 \<or> m = 3 \<or> m = 4 \<or> m = 5 \<or> m = 6 \<or> m = 7 \<or> m = 8 \<or> m = 9"
  by arith

lemma digit_char_props: "is_digit (digit_char n) \<and> digit_val (digit_char n) = n mod 10"
proof -
  have "n mod 10 < 10" by simp
  from lt_ten_cases [OF this] show ?thesis
    by (auto simp: digit_char_def is_digit_def digit_val_def)
qed

lemma is_digit_not_special:
  "is_digit c \<Longrightarrow> \<not> is_space c \<and> c \<noteq> CHR ''_'' \<and> c \<noteq> CHR ''-'' \<and> c \<noteq> CHR ''+'' \<and> c \<noteq> CHR ''/'' \<and> c \<noteq> CHR ''.''"
  by (auto simp: is_digit_def is_space_def)

lemma string_of_nat_digits: "list_all is_digit (string_of_nat n)"
  by (induction n rule: string_of_nat.induct)
     (subst string_of_nat.simps, simp add: digit_char_props)


lemma nat_of_digits_snoc: "nat_of_digits (s @ [c]) = 10 * nat_of_digits s + digit_val c"
  by (simp add: nat_of_digits_def)

lemma nat_of_digits_string_of_nat: "nat_of_digits (string_of_nat n) = n"
proof (induction n rule: string_of_nat.induct)
  case (1 n)
  show ?case
  proof (cases "n < 10")
    case True
    then show ?thesis
      by (subst string_of_nat.simps) (simp add: nat_of_digits_def digit_char_props)
  next
    case False
    with 1 show ?thesis
      by (subst string_of_nat.simps) (simp add: nat_of_digits_snoc digit_char_props)
  qed
qed









lemmas int_eval =
  py_split_def py_int_def strip_def is_space_def int_of_digits_def is_digit_def
  nat_of_digits_def digit_val_def

lemmas json_eval =
  silence_json_def json_items_def unpack_pair_def json_add_def



lemma ebind_eq_Inr: "ebind m f = Inr y \<longleftrightarrow> (\<exists>x. m = Inr x \<and> f x = Inr y)"
  by (cases m) auto

lemma ebind_eq_Inl: "ebind m f = Inl e \<longleftrightarrow> (m = Inl e \<or> (\<exists>x. m = Inr x \<and> f x = Inl e))"
  by (cases m) auto

lemma parse_start_not_unbound: "parse_start pf l \<noteq> Inl UnboundLocalError"
  by (simp add: parse_start_def split: list.splits option.splits)

lemma parse_end_not_unbound: "parse_end pf l \<noteq> Inl UnboundLocalError"
  by (simp add: parse_end_def split: list.splits option.splits)

lemma parse_line_plain:
  "\<not> has_start l \<Longrightarrow> \<not> has_end l \<Longrightarrow> parse_line pf l st = Inr st"
  by (cases st) (simp add: parse_line_def)

lemma parse_line_start_only:
  "has_start l \<Longrightarrow> \<not> has_end l \<Longrightarrow>
   parse_line pf l (st, acc) = ebind (parse_start pf l) (\<lambda>v. Inr (Some v, acc))"
  by (cases "parse_start pf l") (simp_all add: parse_line_def)

lemma parse_line_end_only:
  "\<not> has_start l \<Longrightarrow> has_end l \<Longrightarrow>
   parse_line pf l (st, acc) =
     ebind (parse_end pf l)
       (\<lambda>e. case st of None \<Rightarrow> Inl UnboundLocalError | Some s \<Rightarrow> Inr (st, acc @ [(s, e)]))"
  by (simp add: parse_line_def)

lemma parse_line_both:
  "has_start l \<Longrightarrow> has_end l \<Longrightarrow>
   parse_line pf l (st, acc) =
     ebind (parse_start pf l) (\<lambda>v. ebind (parse_end pf l) (\<lambda>e. Inr (Some v, acc @ [(v, e)])))"
  by (cases "parse_start pf l") (simp_all add: parse_line_def)

lemma parse_lines_append:
  "parse_lines pf (xs @ ys) st = ebind (parse_lines pf xs st) (parse_lines pf ys)"
proof (induction xs arbitrary: st)
  case Nil
  show ?case by simp
next
  case (Cons x xs)
  show ?case by (cases "parse_line pf x st") (simp_all add: Cons.IH)
qed

lemma parse_lines_no_end:
  "\<forall>l\<in>set ls. \<not> has_end l \<Longrightarrow> parse_lines pf ls (st, acc) = Inr (st', acc') \<Longrightarrow> acc' = acc"
proof (induction ls arbitrary: st)
  case Nil
  then show ?case by simp
next
  case (Cons l ls)
  show ?case
  proof (cases "has_start l")
    case True
    with Cons.prems obtain v where "parse_start pf l = Inr v"
      and "parse_lines pf ls (Some v, acc) = Inr (st', acc')"
      by (cases "parse_start pf l") (auto simp: parse_line_start_only)
    with Cons show ?thesis by auto
  next
    case False
    with Cons.prems have "parse_lines pf ls (st, acc) = Inr (st', acc')"
      by (simp add: parse_line_plain)
    with Cons show ?thesis by auto
  qed
qed

lemma parse_line_length:
  "parse_line pf l (st, acc) = Inr (st', acc') \<Longrightarrow>
   length acc' = length acc + (if has_end l then 1 else 0)"
  by (auto simp: parse_line_def ebind_eq_Inr split: if_splits option.splits)

lemma parse_lines_length:
  "parse_lines pf ls (st, acc) = Inr (st', acc') \<Longrightarrow>
   length acc' = length acc + length (filter has_end ls)"
proof (induction ls arbitrary: st acc)
  case Nil
  then show ?case by simp
next
  case (Cons l ls)
  from Cons.prems obtain st1 acc1 where 1: "parse_line pf l (st, acc) = Inr (st1, acc1)"
    and 2: "parse_lines pf ls (st1, acc1) = Inr (st', acc')"
    by (auto simp: ebind_eq_Inr)
  from parse_line_length [OF 1] Cons.IH [OF 2] show ?case by simp
qed

lemma parse_line_assigned:
  assumes "st = Some s \<or> has_start l"
  shows "parse_line pf l (st, acc) \<noteq> Inl UnboundLocalError"
    and "parse_line pf l (st, acc) = Inr (st', acc') \<Longrightarrow> \<exists>s'. st' = Some s'"
proof -
  have ps: "parse_start pf l \<noteq> Inl UnboundLocalError" by (rule parse_start_not_unbound)
  have pe: "parse_end pf l \<noteq> Inl UnboundLocalError" by (rule parse_end_not_unbound)
  show "parse_line pf l (st, acc) \<noteq> Inl UnboundLocalError"
    using assms ps pe
    by (cases "parse_start pf l"; cases "parse_end pf l"; cases "has_start l"; cases "has_end l")
       (auto simp: parse_line_def)
  show "parse_line pf l (st, acc) = Inr (st', acc') \<Longrightarrow> \<exists>s'. st' = Some s'"
    using assms
    by (cases "parse_start pf l"; cases "parse_end pf l"; cases "has_start l"; cases "has_end l")
       (auto simp: parse_line_def)
qed

lemma parse_lines_bound_start:
  "parse_lines pf ls (Some s, acc) \<noteq> Inl UnboundLocalError"
proof (induction ls arbitrary: s acc)
  case Nil
  show ?case by simp
next
  case (Cons l ls)
  show ?case
  proof (cases "parse_line pf l (Some s, acc)")
    case (Inl e)
    with parse_line_assigned(1) [of "Some s" s l pf acc] show ?thesis by auto
  next
    case (Inr st1)
    obtain st' acc' where st1: "st1 = (st', acc')" by (cases st1)
    with Inr parse_line_assigned(2) [of "Some s" s l pf acc st' acc']
    obtain s' where "st' = Some s'" by auto
    with Inr st1 Cons.IH [of s' acc'] show ?thesis by simp
  qed
qed

lemma parse_lines_covered:
  "\<forall>i<length ls. has_end (ls ! i) \<longrightarrow> (\<exists>j\<le>i. has_start (ls ! j)) \<Longrightarrow>
   parse_lines pf ls (st, acc) \<noteq> Inl UnboundLocalError"
proof (induction ls arbitrary: st acc)
  case Nil
  show ?case by simp
next
  case (Cons l ls)
  show ?case
  proof (cases "has_start l")
    case True
    show ?thesis
    proof (cases "parse_line pf l (st, acc)")
      case (Inl e)
      with True parse_line_assigned(1) [of st undefined l pf acc] show ?thesis by auto
    next
      case (Inr st1)
      obtain st' acc' where st1: "st1 = (st', acc')" by (cases st1)
      with Inr True parse_line_assigned(2) [of st undefined l pf acc st' acc']
      obtain s' where "st' = Some s'" by auto
      with Inr st1 parse_lines_bound_start [of pf ls s' acc'] show ?thesis by simp
    qed
  next
    case False
    from Cons.prems have "has_end ((l # ls) ! 0) \<longrightarrow> (\<exists>j\<le>0. has_start ((l # ls) ! j))"
      by blast
    with False have ne: "\<not> has_end l" by simp
    have shift: "\<forall>i<length ls. has_end (ls ! i) \<longrightarrow> (\<exists>j\<le>i. has_start (ls ! j))"
    proof (intro allI impI)
      fix i assume i: "i < length ls" and e: "has_end (ls ! i)"
      from Cons.prems i e obtain j where j: "j \<le> Suc i" "has_start ((l # ls) ! j)"
        by (metis Suc_less_eq length_Cons nth_Cons_Suc)
      with False obtain k where "j = Suc k" by (cases j) auto
      with j show "\<exists>j\<le>i. has_start (ls ! j)" by auto
    qed
    from False ne Cons.IH [OF shift] show ?thesis
      by (simp add: parse_line_plain)
  qed
qed

lemma parse_lines_plain_prefix:
  "\<forall>x\<in>set pre. \<not> has_start x \<and> \<not> has_end x \<Longrightarrow> parse_lines pf (pre @ ls) st = parse_lines pf ls st"
  by (induction pre) (simp_all add: parse_line_plain)

lemma parse_lines_first_end_unbound:
  assumes "\<forall>x\<in>set pre. \<not> has_start x \<and> \<not> has_end x" "\<not> has_start l" "has_end l"
  shows "parse_silences pf (pre @ l # post) =
           Inl (case parse_end pf l of Inl e \<Rightarrow> e | Inr v \<Rightarrow> UnboundLocalError)"
  using assms
  by (cases "parse_end pf l")
     (simp_all add: parse_silences_def parse_lines_plain_prefix parse_line_end_only)

lemma parse_line_pairs:
  assumes "parse_line pf l (st, acc) = Inr (st', acc')"
  shows "(st' = st \<or> (\<exists>v. st' = Some v \<and> has_start l \<and> parse_start pf l = Inr v)) \<and>
         (acc' = acc \<or> (\<exists>s e. acc' = acc @ [(s, e)] \<and> st' = Some s \<and> has_end l \<and> parse_end pf l = Inr e))"
  using assms
  by (cases "parse_start pf l"; cases "parse_end pf l"; cases "has_start l"; cases "has_end l")
     (auto simp: parse_line_def split: option.splits)

lemma parse_lines_pairs:
  "parse_lines pf ls (st, acc) = Inr (st', acc') \<Longrightarrow>
   (\<forall>s. st' = Some s \<longrightarrow> st = Some s \<or> (\<exists>x\<in>set ls. has_start x \<and> parse_start pf x = Inr s)) \<and>
   (\<exists>new. acc' = acc @ new \<and>
      (\<forall>(s, e)\<in>set new.
          (st = Some s \<or> (\<exists>x\<in>set ls. has_start x \<and> parse_start pf x = Inr s)) \<and>
          (\<exists>y\<in>set ls. has_end y \<and> parse_end pf y = Inr e)))"
proof (induction ls arbitrary: st acc)
  case Nil
  then show ?case by simp
next
  case (Cons l ls)
  from Cons.prems obtain st1 acc1 where 1: "parse_line pf l (st, acc) = Inr (st1, acc1)"
    and 2: "parse_lines pf ls (st1, acc1) = Inr (st', acc')"
    by (auto simp: ebind_eq_Inr)
  note L = parse_line_pairs [OF 1]
  from Cons.IH [OF 2] obtain new where
    S: "\<forall>s. st' = Some s \<longrightarrow> st1 = Some s \<or> (\<exists>x\<in>set ls. has_start x \<and> parse_start pf x = Inr s)"
    and N: "acc' = acc1 @ new"
    and P: "\<forall>(s, e)\<in>set new.
          (st1 = Some s \<or> (\<exists>x\<in>set ls. has_start x \<and> parse_start pf x = Inr s)) \<and>
          (\<exists>y\<in>set ls. has_end y \<and> parse_end pf y = Inr e)"
    by blast
  have st1: "\<And>s. st1 = Some s \<Longrightarrow> st = Some s \<or> (has_start l \<and> parse_start pf l = Inr s)"
    using L by auto
  have A: "\<forall>s. st' = Some s \<longrightarrow>
            st = Some s \<or> (\<exists>x\<in>set (l # ls). has_start x \<and> parse_start pf x = Inr s)"
    using S st1 by auto
  have P': "\<forall>(s, e)\<in>set new.
          (st = Some s \<or> (\<exists>x\<in>set (l # ls). has_start x \<and> parse_start pf x = Inr s)) \<and>
          (\<exists>y\<in>set (l # ls). has_end y \<and> parse_end pf y = Inr e)"
    using P st1 by fastforce
  from L have "acc1 = acc \<or> (\<exists>s e. acc1 = acc @ [(s, e)] \<and> st1 = Some s \<and> has_end l \<and> parse_end pf l = Inr e)"
    by simp
  then have B: "\<exists>new. acc' = acc @ new \<and>
      (\<forall>(s, e)\<in>set new.
          (st = Some s \<or> (\<exists>x\<in>set (l # ls). has_start x \<and> parse_start pf x = Inr s)) \<and>
          (\<exists>y\<in>set (l # ls). has_end y \<and> parse_end pf y = Inr e))"
  proof
    assume "acc1 = acc"
    with N P' show ?thesis by blast
  next
    assume "\<exists>s e. acc1 = acc @ [(s, e)] \<and> st1 = Some s \<and> has_end l \<and> parse_end pf l = Inr e"
    then obtain s e where a: "acc1 = acc @ [(s, e)]" and b: "st1 = Some s"
      and c: "has_end l" "parse_end pf l = Inr e" by blast
    from st1 [OF b] c have "(st = Some s \<or> (\<exists>x\<in>set (l # ls). has_start x \<and> parse_start pf x = Inr s)) \<and>
          (\<exists>y\<in>set (l # ls). has_end y \<and> parse_end pf y = Inr e)" by auto
    with P' have "\<forall>(s, e)\<in>set ((s, e) # new).
          (st = Some s \<or> (\<exists>x\<in>set (l # ls). has_start x \<and> parse_start pf x = Inr s)) \<and>
          (\<exists>y\<in>set (l # ls). has_end y \<and> parse_end pf y = Inr e)" by simp
    moreover from N a have "acc' = acc @ ((s, e) # new)" by simp
    ultimately show ?thesis by blast
  qed
  from A B show ?case by blast
qed

lemma parse_line_markers:
  assumes "parse_line pf l (st, acc) = Inr (st', acc')"
  shows "has_start l \<Longrightarrow> \<exists>v. parse_start pf l = Inr v \<and> st' = Some v"
    and "has_end l \<Longrightarrow> \<exists>s e. st' = Some s \<and> parse_end pf l = Inr e \<and> acc' = acc @ [(s, e)]"
    and "\<not> has_end l \<Longrightarrow> acc' = acc"
  using assms
  by (cases "parse_start pf l"; cases "parse_end pf l"; cases "has_start l"; cases "has_end l";
      auto simp: parse_line_def split: option.splits)+

lemma break_length_newline: "break_length (CHR ''\<newline>'' # rest) = 1"
  by (simp add: break_length_def is_linebreak_def)

lemma break_length_extend:
  "break_length (c # cs) = 0 \<Longrightarrow> break_length (c # cs @ CHR ''\<newline>'' # rest) = 0"
proof (cases cs)
  case Nil
  assume "break_length (c # cs) = 0"
  with Nil show ?thesis
    by (simp add: break_length_def is_linebreak_def Let_def split: if_splits)
next
  case (Cons a as)
  assume b: "break_length (c # cs) = 0"
  show ?thesis
  proof (cases as)
    case Nil
    with Cons b show ?thesis
      by (simp add: break_length_def is_linebreak_def Let_def split: if_splits)
  next
    case (Cons a' as')
    with \<open>cs = a # as\<close> b show ?thesis
      by (simp add: break_length_def is_linebreak_def Let_def split: if_splits)
  qed
qed

lemma splitlines_aux_line:
  "no_break l \<Longrightarrow>
   splitlines_aux acc (l @ CHR ''\<newline>'' # rest) = (rev acc @ l) # splitlines_aux [] rest"
proof (induction l arbitrary: acc)
  case Nil
  show ?case by (simp add: splitlines_aux.simps break_length_newline)
next
  case (Cons c cs)
  from Cons.prems have 0: "break_length (c # cs) = 0" and n: "no_break cs" by simp_all
  from break_length_extend [OF 0] have "break_length (c # cs @ CHR ''\<newline>'' # rest) = 0" .
  then have "splitlines_aux acc ((c # cs) @ CHR ''\<newline>'' # rest)
      = splitlines_aux (c # acc) (cs @ CHR ''\<newline>'' # rest)"
    by (simp add: splitlines_aux.simps)
  also from Cons.IH [OF n] have "\<dots> = (rev (c # acc) @ cs) # splitlines_aux [] rest" .
  finally show ?case by simp
qed

lemma stream_of_Cons: "stream_of (l # ls) = l @ CHR ''\<newline>'' # stream_of ls"
  by (simp add: stream_of_def)

lemma splitlines_stream_of: "list_all no_break ls \<Longrightarrow> splitlines (stream_of ls) = ls"
proof (induction ls)
  case Nil
  show ?case by (simp add: stream_of_def splitlines_def splitlines_aux.simps)
next
  case (Cons l ls)
  then have l: "no_break l" and IH: "splitlines_aux [] (stream_of ls) = ls"
    by (simp_all add: splitlines_def)
  from splitlines_aux_line [OF l, of "[]" "stream_of ls"] IH show ?case
    by (simp add: splitlines_def stream_of_Cons)
qed

lemma parse_lines_no_end_total:
  "\<forall>x\<in>set ls. \<not> has_end x \<and> (has_start x \<longrightarrow> (\<exists>v. parse_start pf x = Inr v)) \<Longrightarrow>
   \<exists>st'. parse_lines pf ls (st, acc) = Inr (st', acc)"
proof (induction ls arbitrary: st)
  case Nil
  show ?case by simp
next
  case (Cons l ls)
  show ?case
  proof (cases "has_start l")
    case True
    with Cons.prems obtain v where "parse_start pf l = Inr v" and "\<not> has_end l" by auto
    with True have "parse_line pf l (st, acc) = Inr (Some v, acc)"
      by (simp add: parse_line_start_only)
    moreover from Cons have "\<exists>st'. parse_lines pf ls (Some v, acc) = Inr (st', acc)" by simp
    ultimately show ?thesis by simp
  next
    case False
    with Cons.prems have "parse_line pf l (st, acc) = Inr (st, acc)"
      by (simp add: parse_line_plain)
    moreover from Cons have "\<exists>st'. parse_lines pf ls (st, acc) = Inr (st', acc)" by simp
    ultimately show ?thesis by simp
  qed
qed

lemma loop_state_snoc:
  "splitlines stream' = splitlines stream @ [l] \<Longrightarrow>
   loop_state pf stream' = ebind (loop_state pf stream) (parse_line pf l)"
proof -
  assume a: "splitlines stream' = splitlines stream @ [l]"
  have "parse_lines pf [l] = parse_line pf l"
  proof
    fix x show "parse_lines pf [l] x = parse_line pf l x"
      by (cases "parse_line pf l x") simp_all
  qed
  with a show ?thesis
    by (simp add: loop_state_def parse_lines_append)
qed

lemma parse_stderr_loop_state:
  "parse_stderr pf text = Inr r \<longleftrightarrow> (\<exists>st. loop_state pf text = Inr (st, r))"
  by (auto simp: parse_stderr_def parse_silences_def loop_state_def ebind_eq_Inr)

lemma detect_silence_iff:
  "detect_silence E w wav thr sd = Inr (w', r) \<longleftrightarrow>
     run_ok E (SilenceDetect wav thr sd) \<and>
     utf8_valid (stderr_of E wav thr sd) \<and>
     parse_stderr (float_of E) (stderr_of E wav thr sd) = Inr r \<and>
     w' = w\<lparr>calls := calls w @ [SilenceDetect wav thr sd]\<rparr>"
  by (auto simp: detect_silence_def decode_utf8_def Let_def ebind_eq_Inr)

lemma parse_stderr_trailing:
  assumes "splitlines stream' = splitlines stream @ trailing" "\<forall>x\<in>set trailing. \<not> has_end x"
  shows "parse_stderr pf stream' = Inr r \<Longrightarrow> parse_stderr pf stream = Inr r"
    and "(\<forall>x\<in>set trailing. has_start x \<longrightarrow> (\<exists>v. parse_start pf x = Inr v)) \<Longrightarrow>
         parse_stderr pf stream = Inr r \<Longrightarrow> parse_stderr pf stream' = Inr r"
proof -
  {
    assume "parse_stderr pf stream' = Inr r"
    then obtain st1 acc1 st2 where
      1: "parse_lines pf (splitlines stream) (None, []) = Inr (st1, acc1)"
      and 2: "parse_lines pf trailing (st1, acc1) = Inr (st2, r)"
      by (auto simp: parse_stderr_def assms(1) parse_silences_def parse_lines_append ebind_eq_Inr)
    from assms(2) 2 have "r = acc1" by (auto dest: parse_lines_no_end)
    with 1 show "parse_stderr pf stream = Inr r"
      by (simp add: parse_stderr_def parse_silences_def)
  }
  {
    assume t: "\<forall>x\<in>set trailing. has_start x \<longrightarrow> (\<exists>v. parse_start pf x = Inr v)"
      and p: "parse_stderr pf stream = Inr r"
    from p obtain st1 where 1: "parse_lines pf (splitlines stream) (None, []) = Inr (st1, r)"
      by (auto simp: parse_stderr_def parse_silences_def ebind_eq_Inr)
    from assms(2) t
    have "\<forall>x\<in>set trailing. \<not> has_end x \<and> (has_start x \<longrightarrow> (\<exists>v. parse_start pf x = Inr v))"
      by blast
    from parse_lines_no_end_total [OF this, of st1 r] obtain st2 where
      "parse_lines pf trailing (st1, r) = Inr (st2, r)" by blast
    with 1 show "parse_stderr pf stream' = Inr r"
      by (simp add: parse_stderr_def assms(1) parse_silences_def parse_lines_append)
  }
qed

text \<open>
  C5. When the engine has run and its diagnostic output is UTF-8, the detector returns
  what the loop of lines 83-88 leaves in \<open>silences\<close> after the lines of that stream; the lines of a stream made of texts without a line
  terminator, each followed by a line feed, are these texts. For a stream with one more
  line than another: a line with the start marker records the start time read from it; a
  line with the end marker appends the pair of the recorded start and the end time read
  from it; a line with neither changes nothing, and no line without the end marker
  appends anything. So the result has one pair per line with the end marker, each made of
  a start time read from a start line and an end time read from an end line; and lines
  without the end marker after the last end marker (such as a trailing start marker)
  change nothing in the result: with them the detector returns the same list, provided
  the start times of these lines can be read.
\<close>

theorem detector_reads_stream_line_by_line:
  "(list_all no_break ls \<longrightarrow> splitlines (stream_of ls) = ls) \<and>
   (splitlines stream' = splitlines stream @ [l] \<and> loop_state pf stream = Inr (st, acc) \<longrightarrow>
      (has_start l \<and> \<not> has_end l \<and> parse_start pf l = Inr v \<longrightarrow>
         loop_state pf stream' = Inr (Some v, acc)) \<and>
      (\<not> has_start l \<and> has_end l \<and> parse_end pf l = Inr e \<and> st = Some s \<longrightarrow>
         loop_state pf stream' = Inr (Some s, acc @ [(s, e)])) \<and>
      (\<not> has_start l \<and> \<not> has_end l \<longrightarrow>
         loop_state pf stream' = Inr (st, acc)) \<and>
      (loop_state pf stream' = Inr (st', acc') \<longrightarrow>
         (has_start l \<longrightarrow> (\<exists>v. parse_start pf l = Inr v \<and> st' = Some v)) \<and>
         (has_end l \<longrightarrow>
            (\<exists>s e. st' = Some s \<and> parse_end pf l = Inr e \<and> acc' = acc @ [(s, e)])) \<and>
         (\<not> has_end l \<longrightarrow> acc' = acc))) \<and>
   (parse_stderr pf stream = Inr r \<longleftrightarrow> (\<exists>st. loop_state pf stream = Inr (st, r))) \<and>
   (parse_stderr pf stream = Inr r \<longrightarrow>
      length r = length (filter has_end (splitlines stream)) \<and>
      (\<forall>(s, e)\<in>set r.
          (\<exists>x\<in>set (splitlines stream). has_start x \<and> parse_start pf x = Inr s) \<and>
          (\<exists>y\<in>set (splitlines stream). has_end y \<and> parse_end pf y = Inr e))) \<and>
   (splitlines stream' = splitlines stream @ trailing \<and> (\<forall>x\<in>set trailing. \<not> has_end x) \<longrightarrow>
      (parse_stderr pf stream' = Inr r \<longrightarrow>
         parse_stderr pf stream = Inr r) \<and>
      ((\<forall>x\<in>set trailing. has_start x \<longrightarrow> (\<exists>v. parse_start pf x = Inr v)) \<and>
       parse_stderr pf stream = Inr r \<longrightarrow>
         parse_stderr pf stream' = Inr r)) \<and>
   (detect_silence E w wav thr sd = Inr (w', r) \<longleftrightarrow>
      run_ok E (SilenceDetect wav thr sd) \<and>
      utf8_valid (stderr_of E wav thr sd) \<and>
      parse_stderr (float_of E) (stderr_of E wav thr sd) = Inr r \<and>
      w' = w\<lparr>calls := calls w @ [SilenceDetect wav thr sd]\<rparr>)"
proof -
  have A: "list_all no_break ls \<longrightarrow> splitlines (stream_of ls) = ls"
    by (simp add: splitlines_stream_of)
  have B: "splitlines stream' = splitlines stream @ [l] \<and> loop_state pf stream = Inr (st, acc) \<longrightarrow>
      (has_start l \<and> \<not> has_end l \<and> parse_start pf l = Inr v \<longrightarrow>
         loop_state pf stream' = Inr (Some v, acc)) \<and>
      (\<not> has_start l \<and> has_end l \<and> parse_end pf l = Inr e \<and> st = Some s \<longrightarrow>
         loop_state pf stream' = Inr (Some s, acc @ [(s, e)])) \<and>
      (\<not> has_start l \<and> \<not> has_end l \<longrightarrow>
         loop_state pf stream' = Inr (st, acc)) \<and>
      (loop_state pf stream' = Inr (st', acc') \<longrightarrow>
         (has_start l \<longrightarrow> (\<exists>v. parse_start pf l = Inr v \<and> st' = Some v)) \<and>
         (has_end l \<longrightarrow>
            (\<exists>s e. st' = Some s \<and> parse_end pf l = Inr e \<and> acc' = acc @ [(s, e)])) \<and>
         (\<not> has_end l \<longrightarrow> acc' = acc))"
  proof
    assume a: "splitlines stream' = splitlines stream @ [l] \<and> loop_state pf stream = Inr (st, acc)"
    then have eq: "loop_state pf stream' = parse_line pf l (st, acc)"
      by (simp add: loop_state_snoc)
    have 1: "has_start l \<and> \<not> has_end l \<and> parse_start pf l = Inr v \<longrightarrow>
         loop_state pf stream' = Inr (Some v, acc)"
      by (simp add: eq parse_line_start_only)
    have 2: "\<not> has_start l \<and> has_end l \<and> parse_end pf l = Inr e \<and> st = Some s \<longrightarrow>
         loop_state pf stream' = Inr (Some s, acc @ [(s, e)])"
      by (simp add: eq parse_line_end_only)
    have 3: "\<not> has_start l \<and> \<not> has_end l \<longrightarrow>
         loop_state pf stream' = Inr (st, acc)"
      by (simp add: eq parse_line_plain)
    have 4: "loop_state pf stream' = Inr (st', acc') \<longrightarrow>
         (has_start l \<longrightarrow> (\<exists>v. parse_start pf l = Inr v \<and> st' = Some v)) \<and>
         (has_end l \<longrightarrow>
            (\<exists>s e. st' = Some s \<and> parse_end pf l = Inr e \<and> acc' = acc @ [(s, e)])) \<and>
         (\<not> has_end l \<longrightarrow> acc' = acc)"
      unfolding eq using parse_line_markers [of pf l st acc st' acc'] by blast
    from 1 2 3 4 show "(has_start l \<and> \<not> has_end l \<and> parse_start pf l = Inr v \<longrightarrow>
         loop_state pf stream' = Inr (Some v, acc)) \<and>
      (\<not> has_start l \<and> has_end l \<and> parse_end pf l = Inr e \<and> st = Some s \<longrightarrow>
         loop_state pf stream' = Inr (Some s, acc @ [(s, e)])) \<and>
      (\<not> has_start l \<and> \<not> has_end l \<longrightarrow>
         loop_state pf stream' = Inr (st, acc)) \<and>
      (loop_state pf stream' = Inr (st', acc') \<longrightarrow>
         (has_start l \<longrightarrow> (\<exists>v. parse_start pf l = Inr v \<and> st' = Some v)) \<and>
         (has_end l \<longrightarrow>
            (\<exists>s e. st' = Some s \<and> parse_end pf l = Inr e \<and> acc' = acc @ [(s, e)])) \<and>
         (\<not> has_end l \<longrightarrow> acc' = acc))"
      by (intro conjI)
  qed
  have C: "parse_stderr pf stream = Inr r \<longleftrightarrow> (\<exists>st. loop_state pf stream = Inr (st, r))"
    by (rule parse_stderr_loop_state)
  have D: "parse_stderr pf stream = Inr r \<longrightarrow>
      length r = length (filter has_end (splitlines stream)) \<and>
      (\<forall>(s, e)\<in>set r.
          (\<exists>x\<in>set (splitlines stream). has_start x \<and> parse_start pf x = Inr s) \<and>
          (\<exists>y\<in>set (splitlines stream). has_end y \<and> parse_end pf y = Inr e))"
  proof
    assume "parse_stderr pf stream = Inr r"
    then obtain st' where p: "parse_lines pf (splitlines stream) (None, []) = Inr (st', r)"
      by (auto simp: parse_stderr_def parse_silences_def ebind_eq_Inr)
    from parse_lines_length [OF p]
    have 1: "length r = length (filter has_end (splitlines stream))" by simp
    from parse_lines_pairs [OF p]
    have 2: "\<forall>(s, e)\<in>set r.
          (\<exists>x\<in>set (splitlines stream). has_start x \<and> parse_start pf x = Inr s) \<and>
          (\<exists>y\<in>set (splitlines stream). has_end y \<and> parse_end pf y = Inr e)"
      by auto
    from 1 2 show "length r = length (filter has_end (splitlines stream)) \<and>
      (\<forall>(s, e)\<in>set r.
          (\<exists>x\<in>set (splitlines stream). has_start x \<and> parse_start pf x = Inr s) \<and>
          (\<exists>y\<in>set (splitlines stream). has_end y \<and> parse_end pf y = Inr e))" by (rule conjI)
  qed
  have F: "splitlines stream' = splitlines stream @ trailing \<and> (\<forall>x\<in>set trailing. \<not> has_end x) \<longrightarrow>
      (parse_stderr pf stream' = Inr r \<longrightarrow>
         parse_stderr pf stream = Inr r) \<and>
      ((\<forall>x\<in>set trailing. has_start x \<longrightarrow> (\<exists>v. parse_start pf x = Inr v)) \<and>
       parse_stderr pf stream = Inr r \<longrightarrow>
         parse_stderr pf stream' = Inr r)"
    using parse_stderr_trailing [of stream' stream trailing pf r] by blast
  have G: "detect_silence E w wav thr sd = Inr (w', r) \<longleftrightarrow>
      run_ok E (SilenceDetect wav thr sd) \<and>
      utf8_valid (stderr_of E wav thr sd) \<and>
      parse_stderr (float_of E) (stderr_of E wav thr sd) = Inr r \<and>
      w' = w\<lparr>calls := calls w @ [SilenceDetect wav thr sd]\<rparr>"
    by (rule detect_silence_iff)
  from A B C D F G show ?thesis by (intro conjI)
qed

lemmas splitlines_eval =
  splitlines_def splitlines_aux.simps break_length_def is_linebreak_def

lemmas parser_eval =
  parse_silences_def parse_line_def has_start_def has_end_def parse_start_def parse_end_def
  py_split_def float_plain_def py_int_def strip_def is_space_def int_of_digits_def
  is_digit_def nat_of_digits_def digit_val_def

lemmas utf8_eval = utf8_valid.simps seq_length_def nth_in_def Let_def

lemmas stream_eval = stream_of_def break_length_def is_linebreak_def Let_def

theorem detector_reads_stream_line_by_line_witness:
  "splitlines
     ''[silencedetect @ 0x1] silence_start: 12\<newline>[silencedetect @ 0x1] silence_end: 15 | silence_duration: 3\<newline>[silencedetect @ 0x1] silence_start: 40\<newline>''
     = [''[silencedetect @ 0x1] silence_start: 12'',
        ''[silencedetect @ 0x1] silence_end: 15 | silence_duration: 3'',
        ''[silencedetect @ 0x1] silence_start: 40''] \<and>
   loop_state float_plain ''[silencedetect @ 0x1] silence_start: 12\<newline>'' = Inr (Some 12, []) \<and>
   loop_state float_plain
     ''[silencedetect @ 0x1] silence_start: 12\<newline>[silencedetect @ 0x1] silence_end: 15 | silence_duration: 3\<newline>''
     = Inr (Some 12, [(12, 15)]) \<and>
   loop_state float_plain
     ''[silencedetect @ 0x1] silence_start: 12\<newline>[silencedetect @ 0x1] silence_end: 15 | silence_duration: 3\<newline>size=N/A time=00:00:01\<newline>''
     = Inr (Some 12, [(12, 15)]) \<and>
   parse_stderr float_plain
     ''[silencedetect @ 0x1] silence_start: 12\<newline>[silencedetect @ 0x1] silence_end: 15 | silence_duration: 3\<newline>''
     = Inr [(12, 15)] \<and>
   parse_stderr float_plain
     ''[silencedetect @ 0x1] silence_start: 12\<newline>[silencedetect @ 0x1] silence_end: 15 | silence_duration: 3\<newline>[silencedetect @ 0x1] silence_start: 40\<newline>''
     = Inr [(12, 15)] \<and>
   length (filter has_end (splitlines
     ''[silencedetect @ 0x1] silence_start: 12\<newline>[silencedetect @ 0x1] silence_end: 15 | silence_duration: 3\<newline>[silencedetect @ 0x1] silence_start: 40\<newline>''))
     = 1 \<and>
   detect_silence (demo_env 5400) empty_world ''out/chunk_1.wav'' (- 40) 2
     = Inr (empty_world\<lparr>calls := [SilenceDetect ''out/chunk_1.wav'' (- 40) 2]\<rparr>, [(2000, 2010)])"
proof -
  let ?a = "''[silencedetect @ 0x1] silence_start: 12''"
  let ?b = "''[silencedetect @ 0x1] silence_end: 15 | silence_duration: 3''"
  let ?c = "''[silencedetect @ 0x1] silence_start: 40''"
  let ?p = "''size=N/A time=00:00:01''"
  have na: "no_break ?a" by (simp add: stream_eval)
  have nb: "no_break ?b" by (simp add: stream_eval)
  have nc: "no_break ?c" by (simp add: stream_eval)
  have np: "no_break ?p" by (simp add: stream_eval)
  have ma: "has_start ?a \<and> \<not> has_end ?a \<and> parse_start float_plain ?a = Inr 12"
    by (simp add: parser_eval)
  have mb: "\<not> has_start ?b \<and> has_end ?b \<and> parse_end float_plain ?b = Inr 15"
    by (simp add: parser_eval)
  have mc: "has_start ?c \<and> \<not> has_end ?c \<and> parse_start float_plain ?c = Inr 40"
    by (simp add: parser_eval)
  have mp: "\<not> has_start ?p \<and> \<not> has_end ?p"
    by (simp add: parser_eval)
  have l0: "splitlines (stream_of []) = []"
    using detector_reads_stream_line_by_line [where ls = "[]", THEN conjunct1] by simp
  from na have "list_all no_break [?a]" by (simp only: list.pred_inject simp_thms)
  with detector_reads_stream_line_by_line [where ls = "[?a]", THEN conjunct1]
  have la: "splitlines (stream_of [?a]) = [?a]" by blast
  from na nb have "list_all no_break [?a, ?b]" by (simp only: list.pred_inject simp_thms)
  with detector_reads_stream_line_by_line [where ls = "[?a, ?b]", THEN conjunct1]
  have lb: "splitlines (stream_of [?a, ?b]) = [?a, ?b]" by blast
  from na nb nc have "list_all no_break [?a, ?b, ?c]" by (simp only: list.pred_inject simp_thms)
  with detector_reads_stream_line_by_line [where ls = "[?a, ?b, ?c]", THEN conjunct1]
  have 1: "splitlines (stream_of [?a, ?b, ?c]) = [?a, ?b, ?c]" by blast
  from na nb np have "list_all no_break [?a, ?b, ?p]" by (simp only: list.pred_inject simp_thms)
  with detector_reads_stream_line_by_line [where ls = "[?a, ?b, ?p]", THEN conjunct1]
  have lp: "splitlines (stream_of [?a, ?b, ?p]) = [?a, ?b, ?p]" by blast
  have s0: "loop_state float_plain (stream_of []) = Inr (None, [])"
    by (simp only: loop_state_def l0 parse_lines.simps)
  have "splitlines (stream_of [?a]) = splitlines (stream_of []) @ [?a]"
    by (simp only: la l0 append_Nil)
  with detector_reads_stream_line_by_line [where stream = "stream_of []"
      and stream' = "stream_of [?a]" and l = ?a and pf = float_plain
      and st = None and acc = "[]" and v = 12, THEN conjunct2, THEN conjunct1] ma s0
  have 2: "loop_state float_plain (stream_of [?a]) = Inr (Some 12, [])" by blast
  have "splitlines (stream_of [?a, ?b]) = splitlines (stream_of [?a]) @ [?b]"
    by (simp only: la lb append_Cons append_Nil)
  with detector_reads_stream_line_by_line [where stream = "stream_of [?a]"
      and stream' = "stream_of [?a, ?b]" and l = ?b and pf = float_plain
      and st = "Some 12" and acc = "[]" and e = 15 and s = 12, THEN conjunct2, THEN conjunct1] mb 2
  have "loop_state float_plain (stream_of [?a, ?b]) = Inr (Some 12, [] @ [(12, 15)])"
    by blast
  then have 3: "loop_state float_plain (stream_of [?a, ?b]) = Inr (Some 12, [(12, 15)])"
    by (simp only: append_Nil)
  have "splitlines (stream_of [?a, ?b, ?p]) = splitlines (stream_of [?a, ?b]) @ [?p]"
    by (simp only: lp lb append_Cons append_Nil)
  with detector_reads_stream_line_by_line [where stream = "stream_of [?a, ?b]"
      and stream' = "stream_of [?a, ?b, ?p]" and l = ?p and pf = float_plain
      and st = "Some 12" and acc = "[(12, 15)]", THEN conjunct2, THEN conjunct1] mp 3
  have 4: "loop_state float_plain (stream_of [?a, ?b, ?p]) = Inr (Some 12, [(12, 15)])"
    by blast
  from detector_reads_stream_line_by_line [where pf = float_plain and stream = "stream_of [?a, ?b]"
      and r = "[(12, 15)]", THEN conjunct2, THEN conjunct2, THEN conjunct1] 3
  have 5: "parse_stderr float_plain (stream_of [?a, ?b]) = Inr [(12, 15)]" by blast
  have "splitlines (stream_of [?a, ?b, ?c]) = splitlines (stream_of [?a, ?b]) @ [?c]"
    by (simp only: 1 lb append_Cons append_Nil)
  moreover from mc have "\<forall>x\<in>set [?c]. \<not> has_end x"
    and "\<forall>x\<in>set [?c]. has_start x \<longrightarrow> (\<exists>v. parse_start float_plain x = Inr v)"
    by simp_all
  ultimately have 6: "parse_stderr float_plain (stream_of [?a, ?b, ?c]) = Inr [(12, 15)]"
    using detector_reads_stream_line_by_line [where stream = "stream_of [?a, ?b]"
        and stream' = "stream_of [?a, ?b, ?c]" and trailing = "[?c]"
        and pf = float_plain and r = "[(12, 15)]",
        THEN conjunct2, THEN conjunct2, THEN conjunct2, THEN conjunct2, THEN conjunct1] 5
    by blast
  from detector_reads_stream_line_by_line [where pf = float_plain
      and stream = "stream_of [?a, ?b, ?c]" and r = "[(12, 15)]",
      THEN conjunct2, THEN conjunct2, THEN conjunct2, THEN conjunct1] 6
  have "length [(12::rat, 15::rat)] = length (filter has_end (splitlines (stream_of [?a, ?b, ?c])))"
    by blast
  then have 7: "length (filter has_end (splitlines (stream_of [?a, ?b, ?c]))) = 1"
    by simp
  have "parse_stderr float_plain demo_stderr = Inr [(2000, 2010)]"
    by (simp add: demo_stderr_def parse_stderr_def splitlines_eval parser_eval)
  moreover have "utf8_valid demo_stderr"
    by (simp add: demo_stderr_def utf8_eval)
  ultimately have "run_ok (demo_env 5400) (SilenceDetect ''out/chunk_1.wav'' (- 40) 2) \<and>
      utf8_valid (stderr_of (demo_env 5400) ''out/chunk_1.wav'' (- 40) 2) \<and>
      parse_stderr (float_of (demo_env 5400)) (stderr_of (demo_env 5400) ''out/chunk_1.wav'' (- 40) 2)
        = Inr [(2000, 2010)] \<and>
      empty_world\<lparr>calls := [SilenceDetect ''out/chunk_1.wav'' (- 40) 2]\<rparr>
        = empty_world\<lparr>calls := calls empty_world @ [SilenceDetect ''out/chunk_1.wav'' (- 40) 2]\<rparr>"
    by (simp add: demo_env_def empty_world_def)
  with detector_reads_stream_line_by_line [where E = "demo_env 5400" and w = empty_world
      and wav = "''out/chunk_1.wav''" and thr = "- 40" and sd = 2 and r = "[(2000, 2010)]"
      and w' = "empty_world\<lparr>calls := [SilenceDetect ''out/chunk_1.wav'' (- 40) 2]\<rparr>",
      THEN conjunct2, THEN conjunct2, THEN conjunct2, THEN conjunct2, THEN conjunct2]
  have 8: "detect_silence (demo_env 5400) empty_world ''out/chunk_1.wav'' (- 40) 2
     = Inr (empty_world\<lparr>calls := [SilenceDetect ''out/chunk_1.wav'' (- 40) 2]\<rparr>, [(2000, 2010)])"
    by blast
  have so: "stream_of [?a, ?b, ?c] = ''[silencedetect @ 0x1] silence_start: 12\<newline>[silencedetect @ 0x1] silence_end: 15 | silence_duration: 3\<newline>[silencedetect @ 0x1] silence_start: 40\<newline>''"
    "stream_of [?a] = ''[silencedetect @ 0x1] silence_start: 12\<newline>''"
    "stream_of [?a, ?b] = ''[silencedetect @ 0x1] silence_start: 12\<newline>[silencedetect @ 0x1] silence_end: 15 | silence_duration: 3\<newline>''"
    "stream_of [?a, ?b, ?p] = ''[silencedetect @ 0x1] silence_start: 12\<newline>[silencedetect @ 0x1] silence_end: 15 | silence_duration: 3\<newline>size=N/A time=00:00:01\<newline>''"
    by (simp_all add: stream_of_def)
  from 1 2 3 4 5 6 7 8 show ?thesis
    unfolding so by (intro conjI)
qed

text \<open>
  C10 (amended). If every line with the end marker has the start marker in itself or in an
  earlier line, reading the unassigned \<open>start\<close> is unreachable. If the first line with
  the end marker has no start marker in itself or before it, the parser does not return a
  list: it raises the error of reading the end time (line 87) if that fails, and
  UnboundLocalError (line 88) otherwise.
\<close>

theorem unbound_start_iff_end_before_start:
  "((\<forall>i<length ls. has_end (ls ! i) \<longrightarrow> (\<exists>j\<le>i. has_start (ls ! j))) \<longrightarrow>
      parse_silences pf ls \<noteq> Inl UnboundLocalError) \<and>
   ((\<forall>x\<in>set pre. \<not> has_start x \<and> \<not> has_end x) \<and> \<not> has_start l \<and> has_end l \<longrightarrow>
      parse_silences pf (pre @ l # post) =
        Inl (case parse_end pf l of Inl e \<Rightarrow> e | Inr v \<Rightarrow> UnboundLocalError))"
proof (intro conjI impI)
  assume "\<forall>i<length ls. has_end (ls ! i) \<longrightarrow> (\<exists>j\<le>i. has_start (ls ! j))"
  from parse_lines_covered [OF this, of pf None "[]"]
  show "parse_silences pf ls \<noteq> Inl UnboundLocalError"
    by (auto simp: parse_silences_def ebind_eq_Inl)
next
  assume "(\<forall>x\<in>set pre. \<not> has_start x \<and> \<not> has_end x) \<and> \<not> has_start l \<and> has_end l"
  then show "parse_silences pf (pre @ l # post) =
        Inl (case parse_end pf l of Inl e \<Rightarrow> e | Inr v \<Rightarrow> UnboundLocalError)"
    by (simp add: parse_lines_first_end_unbound)
qed

theorem unbound_start_iff_end_before_start_witness:
  "parse_silences float_plain
     [''size=N/A time=00:00:01'', ''[silencedetect] silence_end: 15 | silence_duration: 3'',
      ''[silencedetect] silence_start: 40'']
     = Inl UnboundLocalError \<and>
   parse_silences float_plain
     [''[silencedetect] silence_start: 12'', ''[silencedetect] silence_end: 15 | silence_duration: 3'']
     \<noteq> Inl UnboundLocalError"
proof -
  let ?ls = "[''[silencedetect] silence_start: 12'', ''[silencedetect] silence_end: 15 | silence_duration: 3'']"
  let ?pre = "[''size=N/A time=00:00:01'']"
  let ?l = "''[silencedetect] silence_end: 15 | silence_duration: 3''"
  let ?post = "[''[silencedetect] silence_start: 40'']"
  have h1: "\<forall>i<length ?ls. has_end (?ls ! i) \<longrightarrow> (\<exists>j\<le>i. has_start (?ls ! j))"
  proof (intro allI impI)
    fix i
    have "has_start (?ls ! 0)" by (simp add: has_start_def)
    then show "\<exists>j\<le>i. has_start (?ls ! j)" by blast
  qed
  have h2: "(\<forall>x\<in>set ?pre. \<not> has_start x \<and> \<not> has_end x) \<and> \<not> has_start ?l \<and> has_end ?l"
    by (simp add: has_start_def has_end_def)
  have e: "parse_end float_plain ?l = Inr 15"
    by (simp add: parser_eval)
  from unbound_start_iff_end_before_start [where ls = ?ls and pf = float_plain and pre = ?pre
      and l = ?l and post = ?post] h1 h2 e
  show ?thesis by simp
qed

theorem end_line_with_later_start_marker_counterexample:
  "splitlines ''silence_end: 2 | silence_start: 1'' = [''silence_end: 2 | silence_start: 1''] \<and>
   has_end ''silence_end: 2 | silence_start: 1'' \<and>
   parse_stderr float_plain ''silence_end: 2 | silence_start: 1'' = Inr [(1, 2)]"
  by (simp add: parse_stderr_def splitlines_eval parser_eval)

section \<open>The world: files and calls\<close>

lemma path_exists_write_file [simp]:
  "path_exists (write_file w p c) q = (q = p \<or> path_exists w q)"
  by (auto simp: path_exists_def write_file_def update_conv')

lemma calls_write_file [simp]: "calls (write_file w p c) = calls w"
  by (simp add: write_file_def)

lemma path_exists_calls_update [simp]: "path_exists (w\<lparr>calls := cs\<rparr>) q = path_exists w q"
  by (simp add: path_exists_def)

lemma engine_run_Inr:
  "engine_run E w c out = Inr w' \<longleftrightarrow>
     run_ok E c \<and> w' = write_file (w\<lparr>calls := calls w @ [c]\<rparr>) out (EngineOutput c)"
  by (auto simp: engine_run_def)

lemma engine_probe_Inr:
  "engine_probe E w p = Inr (w', info) \<longleftrightarrow>
     probe E p = Some info \<and> w' = w\<lparr>calls := calls w @ [Probe p]\<rparr>"
  by (auto simp: engine_probe_def split: option.splits)

lemma new_calls_append: "calls w' = calls w @ new \<Longrightarrow> new_calls w w' = new"
  by (simp add: new_calls_def)

section \<open>The walk over the silences\<close>

lemma walk_merge:
  "round_double (silence_start - prev_end) < 10 \<Longrightarrow>
   walk_silences E mkv out codec fmt ((silence_start, silence_end) # rest) (w, prev_end, split_count)
     = walk_silences E mkv out codec fmt rest (w, silence_end, split_count + 1)"
  by simp

lemma walk_emit:
  "\<not> round_double (silence_start - prev_end) < 10 \<Longrightarrow>
   walk_silences E mkv out codec fmt ((silence_start, silence_end) # rest) (w, prev_end, split_count)
     = ebind (if path_exists w (split_audio_path out split_count fmt) then Inr w
              else engine_run E w
                     (ExtractSplit mkv prev_end (Some silence_start)
                        (split_audio_path out split_count fmt) codec fmt)
                     (split_audio_path out split_count fmt))
         (\<lambda>w1. ebind (if path_exists w1 (split_image_path out split_count) then Inr w1
                       else extract_middle_frame E w1 mkv prev_end silence_start
                              (split_image_path out split_count))
            (\<lambda>w2. walk_silences E mkv out codec fmt rest (w2, silence_end, split_count + 1)))"
  by (simp add: Let_def)

declare walk_silences.simps(2) [simp del]

text \<open>One emitted split: the calls it adds.\<close>

lemma emit_step_calls:
  assumes "(if path_exists w A then Inr w else engine_run E w (ExtractSplit mkv p (Some s) A codec fmt) A) = Inr w1"
    and "(if path_exists w1 I then Inr w1 else extract_middle_frame E w1 mkv p s I) = Inr w2"
  shows "\<exists>new. calls w2 = calls w @ new \<and>
           set new \<subseteq> {ExtractSplit mkv p (Some s) A codec fmt, ExtractFrame mkv ((p + s) / 2) I}"
  using assms
  by (auto simp: engine_run_Inr extract_middle_frame_def split: if_splits)


lemma walk_calls:
  "walk_silences E mkv out codec fmt sil (w, pe, cnt) = Inr (w', pe', cnt') \<Longrightarrow>
   \<exists>new. calls w' = calls w @ new \<and>
     (\<forall>c\<in>set new. \<not> is_probe c \<and> (\<forall>m ss p a f. c \<noteq> ExtractSplit m ss None p a f) \<and>
                    (\<forall>len. split_length c = Some len \<longrightarrow>
                       10 \<le> round_double len \<and> 10 - 1 / 2 ^ 50 \<le> len))"
proof (induction sil arbitrary: w pe cnt)
  case Nil
  then show ?case by simp
next
  case (Cons x sil)
  obtain s e where x: "x = (s, e)" by (cases x)
  show ?case
  proof (cases "round_double (s - pe) < 10")
    case True
    with Cons.prems x have "walk_silences E mkv out codec fmt sil (w, e, cnt + 1) = Inr (w', pe', cnt')"
      by (simp add: walk_merge)
    from Cons.IH [OF this] show ?thesis .
  next
    case False
    let ?A = "split_audio_path out cnt fmt" and ?I = "split_image_path out cnt"
    from False Cons.prems x obtain w1 w2 where
      1: "(if path_exists w ?A then Inr w
           else engine_run E w (ExtractSplit mkv pe (Some s) ?A codec fmt) ?A) = Inr w1"
      and 2: "(if path_exists w1 ?I then Inr w1
               else extract_middle_frame E w1 mkv pe s ?I) = Inr w2"
      and 3: "walk_silences E mkv out codec fmt sil (w2, e, cnt + 1) = Inr (w', pe', cnt')"
      by (auto simp: walk_emit ebind_eq_Inr)
    from emit_step_calls [OF 1 2] obtain n1 where
      n1: "calls w2 = calls w @ n1"
      "set n1 \<subseteq> {ExtractSplit mkv pe (Some s) ?A codec fmt, ExtractFrame mkv ((pe + s) / 2) ?I}"
      by blast
    from Cons.IH [OF 3] obtain n2 where
      n2: "calls w' = calls w2 @ n2"
      "\<forall>c\<in>set n2. \<not> is_probe c \<and> (\<forall>m ss p a f. c \<noteq> ExtractSplit m ss None p a f) \<and>
                    (\<forall>len. split_length c = Some len \<longrightarrow>
                       10 \<le> round_double len \<and> 10 - 1 / 2 ^ 50 \<le> len)"
      by blast
    from False have r: "10 \<le> round_double (s - pe)" by simp
    from False have "\<not> s - pe < 10 - 1 / 2 ^ 50" unfolding round_double_less_10 .
    then have "10 - 1 / 2 ^ 50 \<le> s - pe" by (simp only: not_less)
    with r n1(2) have "\<forall>c\<in>set n1. \<not> is_probe c \<and> (\<forall>m ss p a f. c \<noteq> ExtractSplit m ss None p a f) \<and>
                    (\<forall>len. split_length c = Some len \<longrightarrow>
                       10 \<le> round_double len \<and> 10 - 1 / 2 ^ 50 \<le> len)"
      by auto
    with n1(1) n2 have "calls w' = calls w @ (n1 @ n2) \<and>
       (\<forall>c\<in>set (n1 @ n2). \<not> is_probe c \<and> (\<forall>m ss p a f. c \<noteq> ExtractSplit m ss None p a f) \<and>
                    (\<forall>len. split_length c = Some len \<longrightarrow>
                       10 \<le> round_double len \<and> 10 - 1 / 2 ^ 50 \<le> len))"
      by auto
    then show ?thesis by blast
  qed
qed

section \<open>The final split\<close>

lemma final_split_calls:
  "final_split E mkv out codec fmt (w, pe, cnt) = Inr w' \<Longrightarrow>
   \<exists>new. calls w' = calls w @ new \<and> (\<forall>c\<in>set new. split_length c = None)"
  by (auto simp: final_split_def Let_def ebind_eq_Inr engine_run_Inr engine_probe_Inr
        extract_middle_frame_def split: if_splits)

lemma get_audio_codec_Inr:
  "get_audio_codec E w mkv = Inr (w', codec, fmt) \<Longrightarrow>
   w' = w\<lparr>calls := calls w @ [Probe mkv]\<rparr> \<and>
   (\<exists>info. probe E mkv = Some info \<and> fmt = hd (py_split '','' (format_name info)))"
proof -
  assume a: "get_audio_codec E w mkv = Inr (w', codec, fmt)"
  then obtain info where p: "probe E mkv = Some info"
    by (cases "probe E mkv") (auto simp: get_audio_codec_def engine_probe_def)
  with a show ?thesis
    by (cases "filter (\<lambda>s. fst s = ''audio'') (streams info)")
       (auto simp: get_audio_codec_def engine_probe_def)
qed

lemma ensure_dir_Inr:
  "ensure_dir w d = Inr w' \<Longrightarrow> calls w' = calls w \<and> path_exists w' d \<and>
     (w' = w \<or> (\<not> path_exists w d \<and> w' = write_file w d Directory))"
  by (auto simp: ensure_dir_def split: if_splits)

text \<open>
  C7 (amended). The program takes the length \<open>silence_start - prev_end\<close> of a split as a
  double and emits the split when that double is not below 10. So every extraction with an
  explicit end, that is every split before the final one, has a length whose nearest
  double is at least 10, hence a length of at least \<open>10 - 1 / 2 ^ 50\<close>; it can be
  shorter than 10. The final extraction has no end. This holds for a run of the splitter
  that returns and for every walk that returns, over any list of silences, ordered in time
  or not.
\<close>

theorem emitted_splits_round_to_ten:
  "(split_original_by_silence E w mkv out d thr = Inr w' \<longrightarrow>
      (\<forall>c\<in>set (new_calls w w'). \<forall>len. split_length c = Some len \<longrightarrow>
          10 \<le> round_double len \<and> 10 - 1 / 2 ^ 50 \<le> len)) \<and>
   (walk_silences E mkv out codec fmt sil (v, prev_end, split_count) = Inr (v', prev_end', split_count')
      \<longrightarrow> (\<forall>c\<in>set (new_calls v v'). \<forall>len. split_length c = Some len \<longrightarrow>
            10 \<le> round_double len \<and> 10 - 1 / 2 ^ 50 \<le> len))"
proof (intro conjI impI)
  assume "split_original_by_silence E w mkv out d thr = Inr w'"
  then obtain w1 w2 codec fmt sil w3 pe cnt where
    1: "ensure_dir w out = Inr w1"
    and 2: "get_audio_codec E w1 mkv = Inr (w2, codec, fmt)"
    and 3: "walk_silences E mkv out codec fmt sil (w2, 0, 0) = Inr (w3, pe, cnt)"
    and 4: "final_split E mkv out codec fmt (w3, pe, cnt) = Inr w'"
    by (auto simp: split_original_by_silence_def Let_def ebind_eq_Inr)
  from ensure_dir_Inr [OF 1] get_audio_codec_Inr [OF 2]
  have c2: "calls w2 = calls w @ [Probe mkv]" by auto
  from walk_calls [OF 3] obtain n3 where n3: "calls w3 = calls w2 @ n3"
    "\<forall>c\<in>set n3. \<forall>len. split_length c = Some len \<longrightarrow>
        10 \<le> round_double len \<and> 10 - 1 / 2 ^ 50 \<le> len" by blast
  from final_split_calls [OF 4] obtain n4 where n4: "calls w' = calls w3 @ n4"
    "\<forall>c\<in>set n4. split_length c = None" by blast
  from c2 n3 n4 have "calls w' = calls w @ (Probe mkv # n3 @ n4)" by simp
  then have "new_calls w w' = Probe mkv # n3 @ n4" by (rule new_calls_append)
  with n3(2) n4(2)
  show "\<forall>c\<in>set (new_calls w w'). \<forall>len. split_length c = Some len \<longrightarrow>
          10 \<le> round_double len \<and> 10 - 1 / 2 ^ 50 \<le> len"
    by auto
next
  assume "walk_silences E mkv out codec fmt sil (v, prev_end, split_count)
            = Inr (v', prev_end', split_count')"
  from walk_calls [OF this] obtain n where n: "calls v' = calls v @ n"
    "\<forall>c\<in>set n. \<forall>len. split_length c = Some len \<longrightarrow>
        10 \<le> round_double len \<and> 10 - 1 / 2 ^ 50 \<le> len" by blast
  from n(1) have "new_calls v v' = n" by (rule new_calls_append)
  with n(2)
  show "\<forall>c\<in>set (new_calls v v'). \<forall>len. split_length c = Some len \<longrightarrow>
          10 \<le> round_double len \<and> 10 - 1 / 2 ^ 50 \<le> len"
    by simp
qed


lemmas world_eval =
  split_original_by_silence_def ensure_dir_def path_exists_def cache_files_def listdir_def
  child_name_def dir_prefix_def path_join_def is_cache_name_def cache_suffix_def string_of_int_def
  string_of_nat.simps digit_char_def sort_chunks_def get_audio_codec_def engine_probe_def
  load_json_def adjust_silences_def json_eval round_double_less_10
  split_audio_path_def split_image_path_def engine_run_def write_file_def
  extract_middle_frame_def final_split_def List.map_filter_def suffix_to_prefix Let_def
  walk_silences.simps(2)

lemma cached_world_split:
  "split_original_by_silence (demo_env 5400) cached_world ''in.mkv'' ''out'' 2700 (- 40)
     = Inr split_world"
  by (simp add: split_world_def cached_world_def demo_env_def world_eval int_eval)

lemma new_calls_split_world:
  "new_calls cached_world split_world = calls split_world"
  by (simp add: new_calls_def cached_world_def)

theorem emitted_splits_round_to_ten_witness:
  "split_original_by_silence (demo_env 5400) cached_world ''in.mkv'' ''out'' 2700 (- 40)
     = Inr split_world \<and>
   split_length (new_calls cached_world split_world ! 1) = Some 2000 \<and>
   10 \<le> round_double 2000 \<and> (10::rat) - 1 / 2 ^ 50 \<le> 2000"
proof -
  have n: "new_calls cached_world split_world ! 1 \<in> set (new_calls cached_world split_world)"
    by (simp add: new_calls_split_world) (simp add: split_world_def)
  have l: "split_length (new_calls cached_world split_world ! 1) = Some 2000"
    by (simp add: new_calls_split_world) (simp add: split_world_def)
  from emitted_splits_round_to_ten [where E = "demo_env 5400" and w = cached_world
      and mkv = "''in.mkv''" and out = "''out''" and d = 2700 and thr = "- 40"
      and w' = split_world] cached_world_split n l
  have "10 \<le> round_double 2000 \<and> (10::rat) - 1 / 2 ^ 50 \<le> 2000" by blast
  with l cached_world_split show ?thesis by simp
qed

theorem split_shorter_than_ten_counterexample:
  "map_sum id (\<lambda>w'. map split_length (new_calls near_ten_world w'))
     (split_original_by_silence (demo_env 5400) near_ten_world ''in.mkv'' ''out'' 2700 (- 40))
     = Inr [None, Some (10 - 1 / 2 ^ 60), None, None, None, None] \<and>
   (10::rat) - 1 / 2 ^ 60 < 10"
  by (simp add: near_ten_world_def demo_env_def world_eval int_eval new_calls_def)

text \<open>
  C8. Source of 5400 s, chunks of 2700 s, threshold -40, one silence (2000, 2010) in the
  caches: the splitter extracts 0 to 2000 with a frame at 1000, and 2010 to the end with a
  frame at 3705.
\<close>

theorem scenario_two_splits:
  "map_sum id (new_calls cached_world)
     (split_original_by_silence (demo_env 5400) cached_world ''in.mkv'' ''out'' 2700 (- 40))
   = Inr [Probe ''in.mkv'',
          ExtractSplit ''in.mkv'' 0 (Some 2000) ''out/split_1.matroska'' ''aac'' ''matroska'',
          ExtractFrame ''in.mkv'' 1000 ''out/split_1.jpg'',
          ExtractSplit ''in.mkv'' 2010 None ''out/split_2.matroska'' ''aac'' ''matroska'',
          Probe ''in.mkv'',
          ExtractFrame ''in.mkv'' 3705 ''out/split_2.jpg'']"
  by (simp add: cached_world_split new_calls_split_world) (simp add: split_world_def)

text \<open>
  C9. The cache files are sorted by chunk number, the names without one last; but a cache
  file whose name has no chunk number then makes line 142 raise ValueError: the run ends
  without any split.
\<close>

theorem stray_cache_name_aborts:
  "sorted (map extract_chunk_number (sort_chunks names)) \<and>
   set (sort_chunks names) = set names \<and> length (sort_chunks names) = length names \<and>
   extract_chunk_number ''notes_silence_-40.json'' = \<infinity> \<and>
   sort_chunks (cache_files stray_world ''out'' (- 40))
     = [''chunk_1_silence_-40.json'', ''notes_silence_-40.json''] \<and>
   split_original_by_silence (demo_env 5400) stray_world ''in.mkv'' ''out'' 2700 (- 40)
     = Inl ValueError"
proof -
  have "sorted (map extract_chunk_number (sort_chunks names))"
    and "set (sort_chunks names) = set names"
    and "length (sort_chunks names) = length names"
    by (simp_all add: sort_chunks_def)
  moreover have "extract_chunk_number ''notes_silence_-40.json'' = \<infinity>"
    by simp
  moreover have "sort_chunks (cache_files stray_world ''out'' (- 40))
     = [''chunk_1_silence_-40.json'', ''notes_silence_-40.json'']"
    by (simp add: stray_world_def world_eval int_eval)
  moreover have "split_original_by_silence (demo_env 5400) stray_world ''in.mkv'' ''out'' 2700 (- 40)
     = Inl ValueError"
    by (simp add: stray_world_def demo_env_def world_eval int_eval)
  ultimately show ?thesis by simp
qed



section \<open>Paths\<close>

lemma path_join_child: "\<not> prefix ''/'' x \<Longrightarrow> path_join out x = dir_prefix out @ x"
  by (cases x) (simp_all add: path_join_def dir_prefix_def)

lemma string_of_nat_inj: "string_of_nat a = string_of_nat b \<Longrightarrow> a = b"
proof -
  assume "string_of_nat a = string_of_nat b"
  then have "nat_of_digits (string_of_nat a) = nat_of_digits (string_of_nat b)" by simp
  then show "a = b" by (simp add: nat_of_digits_string_of_nat)
qed

lemma chunk_path_eq: "chunk_path out i = dir_prefix out @ ''chunk_'' @ string_of_nat (i + 1) @ ''.wav''"
  by (simp add: chunk_path_def path_join_child)

lemma chunk_path_inj: "chunk_path out i = chunk_path out j \<Longrightarrow> i = j"
  by (auto simp: chunk_path_eq dest: string_of_nat_inj)

lemma split_audio_path_eq:
  "split_audio_path out n fmt = dir_prefix out @ ''split_'' @ string_of_nat (n + 1) @ ''.'' @ fmt"
  by (simp add: split_audio_path_def path_join_child)

lemma split_image_path_eq:
  "split_image_path out n = dir_prefix out @ ''split_'' @ string_of_nat (n + 1) @ ''.jpg''"
  by (simp add: split_image_path_def path_join_child)

lemma split_paths_differ: "fmt \<noteq> ''jpg'' \<Longrightarrow> split_audio_path out n fmt \<noteq> split_image_path out n"
  by (simp add: split_audio_path_eq split_image_path_eq)

lemma final_split_outputs:
  assumes "final_split E mkv out codec fmt (w, prev_end, split_count) = Inr w'"
  shows "path_exists w' (split_audio_path out split_count fmt) \<and>
         path_exists w' (split_image_path out split_count)"
  using assms
  by (auto simp: final_split_def Let_def ebind_eq_Inr engine_run_Inr engine_probe_Inr
        extract_middle_frame_def split: if_splits)

text \<open>
  C3. Whatever \<open>prev_end\<close> and the duration of the source are (no comparison of the two is
  made), the step after the loop extracts one final split from \<open>prev_end\<close> with no end,
  that is up to the end of the source, and one frame at the midpoint of \<open>prev_end\<close> and
  the duration. As for every output, a file that is already there is not made again; in
  every case both final files are there after the step.
\<close>

theorem final_split_without_guard:
  "(probe E mkv = Some info \<and>
    run_ok E (ExtractSplit mkv prev_end None (split_audio_path out split_count fmt) codec fmt) \<and>
    run_ok E (ExtractFrame mkv ((prev_end + duration info) / 2) (split_image_path out split_count)) \<and>
    \<not> path_exists w (split_audio_path out split_count fmt) \<and>
    \<not> path_exists w (split_image_path out split_count) \<and>
    fmt \<noteq> ''jpg'' \<longrightarrow>
      (\<exists>w'. final_split E mkv out codec fmt (w, prev_end, split_count) = Inr w' \<and>
            new_calls w w' =
              [ExtractSplit mkv prev_end None (split_audio_path out split_count fmt) codec fmt,
               Probe mkv,
               ExtractFrame mkv ((prev_end + duration info) / 2) (split_image_path out split_count)])) \<and>
   (final_split E mkv out codec fmt (v, prev_end, split_count) = Inr v' \<longrightarrow>
      path_exists v' (split_audio_path out split_count fmt) \<and>
      path_exists v' (split_image_path out split_count))"
proof (intro conjI impI)
  assume a: "probe E mkv = Some info \<and>
    run_ok E (ExtractSplit mkv prev_end None (split_audio_path out split_count fmt) codec fmt) \<and>
    run_ok E (ExtractFrame mkv ((prev_end + duration info) / 2) (split_image_path out split_count)) \<and>
    \<not> path_exists w (split_audio_path out split_count fmt) \<and>
    \<not> path_exists w (split_image_path out split_count) \<and>
    fmt \<noteq> ''jpg''"
  then have "split_audio_path out split_count fmt \<noteq> split_image_path out split_count"
    by (simp add: split_paths_differ)
  with a show "\<exists>w'. final_split E mkv out codec fmt (w, prev_end, split_count) = Inr w' \<and>
            new_calls w w' =
              [ExtractSplit mkv prev_end None (split_audio_path out split_count fmt) codec fmt,
               Probe mkv,
               ExtractFrame mkv ((prev_end + duration info) / 2) (split_image_path out split_count)]"
    by (auto simp: final_split_def Let_def engine_run_def engine_probe_def extract_middle_frame_def
          new_calls_def)
next
  assume "final_split E mkv out codec fmt (v, prev_end, split_count) = Inr v'"
  from final_split_outputs [OF this]
  show "path_exists v' (split_audio_path out split_count fmt)"
    and "path_exists v' (split_image_path out split_count)"
    by simp_all
qed

theorem final_split_without_guard_witness:
  "final_split (demo_env 5400) ''in.mkv'' ''out'' ''aac'' ''matroska'' (empty_world, 6000, 0)
     = Inr \<lparr>fs = [(''out/split_1.matroska'',
                   EngineOutput (ExtractSplit ''in.mkv'' 6000 None ''out/split_1.matroska'' ''aac'' ''matroska'')),
                  (''out/split_1.jpg'', EngineOutput (ExtractFrame ''in.mkv'' 5700 ''out/split_1.jpg''))],
            calls = [ExtractSplit ''in.mkv'' 6000 None ''out/split_1.matroska'' ''aac'' ''matroska'',
                     Probe ''in.mkv'',
                     ExtractFrame ''in.mkv'' 5700 ''out/split_1.jpg'']\<rparr>"
proof -
  let ?info = "\<lparr>streams = [(''video'', ''h264''), (''audio'', ''aac'')],
                 format_name = ''matroska,webm'', duration = 5400\<rparr>"
  have 1: "probe (demo_env 5400) ''in.mkv'' = Some ?info"
    by (simp add: demo_env_def)
  have 2: "run_ok (demo_env 5400) c" for c
    by (simp add: demo_env_def)
  have 3: "\<not> path_exists empty_world p" for p
    by (simp add: path_exists_def empty_world_def)
  have 4: "''matroska'' \<noteq> ''jpg''" by simp
  from final_split_without_guard [where E = "demo_env 5400" and mkv = "''in.mkv''" and info = ?info
      and prev_end = 6000 and out = "''out''" and split_count = 0 and codec = "''aac''"
      and fmt = "''matroska''" and w = empty_world] 1 2 3 4
  obtain w' where
    "final_split (demo_env 5400) ''in.mkv'' ''out'' ''aac'' ''matroska'' (empty_world, 6000, 0) = Inr w'"
    by blast
  then show ?thesis
    by (simp add: empty_world_def demo_env_def world_eval)
qed


section \<open>The chunker\<close>

lemma chunk_loop_Cons:
  "chunk_loop E mkv out d (i # js) (w, acc) =
     ebind (if path_exists w (chunk_path out i) then Inr w
            else engine_run E w (ExtractChunk mkv (int i * d) d (chunk_path out i)) (chunk_path out i))
       (\<lambda>w'. chunk_loop E mkv out d js (w', acc @ [chunk_path out i]))"
  by (simp add: Let_def)

declare chunk_loop.simps(2) [simp del]

lemma chunk_loop_run:
  assumes "\<forall>c. run_ok E c" "distinct js"
  shows "\<exists>w'. chunk_loop E mkv out d js (w, acc) = Inr (w', acc @ map (chunk_path out) js) \<and>
           calls w' = calls w @
             map (\<lambda>i. ExtractChunk mkv (int i * d) d (chunk_path out i))
               (filter (\<lambda>i. \<not> path_exists w (chunk_path out i)) js)"
  using assms(2)
proof (induction js arbitrary: w acc)
  case Nil
  show ?case by simp
next
  case (Cons i js)
  then have d: "distinct js" and ni: "i \<notin> set js" by simp_all
  show ?case
  proof (cases "path_exists w (chunk_path out i)")
    case True
    from Cons.IH [OF d, of w "acc @ [chunk_path out i]"] True show ?thesis
      by (simp add: chunk_loop_Cons)
  next
    case False
    let ?c = "ExtractChunk mkv (int i * d) d (chunk_path out i)"
    let ?w1 = "write_file (w\<lparr>calls := calls w @ [?c]\<rparr>) (chunk_path out i) (EngineOutput ?c)"
    have same: "filter (\<lambda>j. \<not> path_exists ?w1 (chunk_path out j)) js
                  = filter (\<lambda>j. \<not> path_exists w (chunk_path out j)) js"
      using ni by (intro filter_cong) (auto dest: chunk_path_inj)
    from Cons.IH [OF d, of ?w1 "acc @ [chunk_path out i]"] obtain w' where
      "chunk_loop E mkv out d js (?w1, acc @ [chunk_path out i])
         = Inr (w', (acc @ [chunk_path out i]) @ map (chunk_path out) js)"
      "calls w' = calls ?w1 @
             map (\<lambda>i. ExtractChunk mkv (int i * d) d (chunk_path out i))
               (filter (\<lambda>i. \<not> path_exists ?w1 (chunk_path out i)) js)"
      by blast
    with False assms(1) same show ?thesis
      by (simp add: chunk_loop_Cons engine_run_def)
  qed
qed

lemma index_below_ceiling:
  fixes T :: rat
  assumes "0 < d" "i < nat \<lceil>T / of_int d\<rceil>"
  shows "of_int (int i * d) < T"
proof -
  from assms(2) have "int i < \<lceil>T / of_int d\<rceil>" by linarith
  then have "of_int (int i) < T / of_int d" by (simp add: less_ceiling_iff)
  with assms(1) have "of_int (int i) * of_int d < T" by (simp add: pos_less_divide_eq)
  then show ?thesis by simp
qed

lemma window_inside_source:
  fixes a :: rat
  shows "0 \<le> a \<Longrightarrow>
    {t. a \<le> t \<and> t < a + b} \<inter> {t. 0 \<le> t \<and> t < T} = {t. a \<le> t \<and> t < min (a + b) T}"
  by auto

lemma chunk_path_not_dir: "chunk_path out i \<noteq> out"
proof
  assume "chunk_path out i = out"
  then have "length (chunk_path out i) = length out" by simp
  then show False by (simp add: chunk_path_eq dir_prefix_def path_join_def split: if_splits)
qed

text \<open>
  C4 (amended). For a source of duration \<open>T > 0\<close> and a chunk duration \<open>d > 0\<close>, with an
  engine that does not fail, the chunker returns the \<open>\<lceil>T / d\<rceil>\<close> chunk paths in the
  order of their index; for each index \<open>i\<close> whose file is not there yet it asks the
  engine for the start \<open>i * d\<close> and the length \<open>d\<close>, that is the range from \<open>i * d\<close>
  to \<open>(i + 1) * d\<close>; every start lies before \<open>T\<close>, so the part of that range inside
  the source is the one from \<open>i * d\<close> to \<open>min ((i + 1) * d) T\<close>.
\<close>

theorem chunker_segments:
  assumes "0 < T" "0 < d" "probe E mkv = Some info" "duration info = T"
    and "\<forall>c. run_ok E c" "out \<noteq> []"
  shows "(\<exists>w'. extract_audio_chunks E w mkv out d
                 = Inr (w', map (chunk_path out) [0 ..< nat \<lceil>T / of_int d\<rceil>]) \<and>
               new_calls w w' = Probe mkv #
                 map (\<lambda>i. ExtractChunk mkv (int i * d) d (chunk_path out i))
                   (filter (\<lambda>i. \<not> path_exists w (chunk_path out i)) [0 ..< nat \<lceil>T / of_int d\<rceil>])) \<and>
         0 < \<lceil>T / of_int d\<rceil> \<and>
         (\<forall>i < nat \<lceil>T / of_int d\<rceil>. of_int (int i * d) < T \<and>
            {t. of_int (int i * d) \<le> t \<and> t < of_int (int i * d) + of_int d} \<inter> {t. 0 \<le> t \<and> t < T}
              = {t. of_int (int i * d) \<le> t \<and> t < min (of_int ((int i + 1) * d)) T})"
proof (intro conjI allI impI)
  let ?n = "nat \<lceil>T / of_int d\<rceil>"
  obtain w1 where w1: "ensure_dir w out = Inr w1" "calls w1 = calls w"
    "\<And>i. path_exists w1 (chunk_path out i) = path_exists w (chunk_path out i)"
    using assms(6) chunk_path_not_dir [of out]
    by (cases "path_exists w out") (auto simp: ensure_dir_def)
  let ?w2 = "w1\<lparr>calls := calls w1 @ [Probe mkv]\<rparr>"
  from chunk_loop_run [OF assms(5), of "[0 ..< ?n]" mkv out d ?w2 "[]"] obtain w' where
    l: "chunk_loop E mkv out d [0 ..< ?n] (?w2, []) = Inr (w', map (chunk_path out) [0 ..< ?n])"
    and c: "calls w' = calls ?w2 @
             map (\<lambda>i. ExtractChunk mkv (int i * d) d (chunk_path out i))
               (filter (\<lambda>i. \<not> path_exists ?w2 (chunk_path out i)) [0 ..< ?n])"
    by auto
  from w1 l assms have "extract_audio_chunks E w mkv out d = Inr (w', map (chunk_path out) [0 ..< ?n])"
    by (simp add: extract_audio_chunks_def engine_probe_def num_chunks_def)
  moreover from c w1 have "new_calls w w' = Probe mkv #
                 map (\<lambda>i. ExtractChunk mkv (int i * d) d (chunk_path out i))
                   (filter (\<lambda>i. \<not> path_exists w (chunk_path out i)) [0 ..< ?n])"
    by (simp add: new_calls_def)
  ultimately show "\<exists>w'. extract_audio_chunks E w mkv out d
                 = Inr (w', map (chunk_path out) [0 ..< ?n]) \<and>
               new_calls w w' = Probe mkv #
                 map (\<lambda>i. ExtractChunk mkv (int i * d) d (chunk_path out i))
                   (filter (\<lambda>i. \<not> path_exists w (chunk_path out i)) [0 ..< ?n])"
    by blast
next
  from assms(1,2) have "0 < T / of_int d" by simp
  then show "0 < \<lceil>T / of_int d\<rceil>" by (simp add: less_ceiling_iff)
next
  fix i assume "i < nat \<lceil>T / of_int d\<rceil>"
  from index_below_ceiling [OF assms(2) this] show "of_int (int i * d) < T" .
next
  fix i assume "i < nat \<lceil>T / of_int d\<rceil>"
  from assms(2) have nn: "(0::rat) \<le> of_int (int i * d)" by simp
  have e: "of_int ((int i + 1) * d) = of_int (int i * d) + (of_int d :: rat)"
    by (simp add: algebra_simps)
  show "{t. of_int (int i * d) \<le> t \<and> t < of_int (int i * d) + of_int d} \<inter> {t. 0 \<le> t \<and> t < T}
              = {t. of_int (int i * d) \<le> t \<and> t < min (of_int ((int i + 1) * d)) T}"
    unfolding e by (rule window_inside_source [OF nn])
qed



lemmas chunk_eval =
  extract_audio_chunks_def ensure_dir_def path_exists_def write_file_def engine_probe_def
  chunk_path_def path_join_def string_of_nat.simps digit_char_def
  engine_run_def Let_def chunk_loop.simps(2) suffix_to_prefix

lemma num_chunks_5400_2700: "num_chunks 5400 2700 = 2"
  by (simp add: num_chunks_def)

lemma num_chunks_5_2: "num_chunks 5 2 = 3"
  by (simp add: num_chunks_def ceiling_eq_iff)

lemma upt_2: "[0 ..< 2] = [0, Suc 0]"
  by (simp add: upt_rec)

lemma upt_3: "[0 ..< 3] = [0, Suc 0, Suc (Suc 0)]"
  by (simp add: upt_rec)

theorem chunker_segments_witness:
  "extract_audio_chunks (demo_env 5400) empty_world ''in.mkv'' ''out'' 2700
     = Inr (\<lparr>fs = [(''out'', Directory),
                   (''out/chunk_1.wav'', EngineOutput (ExtractChunk ''in.mkv'' 0 2700 ''out/chunk_1.wav'')),
                   (''out/chunk_2.wav'', EngineOutput (ExtractChunk ''in.mkv'' 2700 2700 ''out/chunk_2.wav''))],
             calls = [Probe ''in.mkv'',
                      ExtractChunk ''in.mkv'' 0 2700 ''out/chunk_1.wav'',
                      ExtractChunk ''in.mkv'' 2700 2700 ''out/chunk_2.wav'']\<rparr>,
            [''out/chunk_1.wav'', ''out/chunk_2.wav''])"
proof -
  let ?info = "\<lparr>streams = [(''video'', ''h264''), (''audio'', ''aac'')],
                 format_name = ''matroska,webm'', duration = 5400\<rparr>"
  have 1: "(0::rat) < 5400" and 2: "(0::int) < 2700" by simp_all
  have 3: "probe (demo_env 5400) ''in.mkv'' = Some ?info" by (simp add: demo_env_def)
  have 4: "duration ?info = 5400" by simp
  have 5: "\<forall>c. run_ok (demo_env 5400) c" by (simp add: demo_env_def)
  have 6: "''out'' \<noteq> []" by simp
  from chunker_segments [OF 1 2 3 4 5 6, of empty_world] obtain w' where
    "extract_audio_chunks (demo_env 5400) empty_world ''in.mkv'' ''out'' 2700
       = Inr (w', map (chunk_path ''out'') [0 ..< nat \<lceil>(5400::rat) / of_int 2700\<rceil>])"
    by blast
  then show ?thesis
    by (simp add: empty_world_def demo_env_def chunk_eval num_chunks_5400_2700 upt_2)
qed

theorem last_chunk_request_counterexample:
  "map_sum id (\<lambda>r. calls (fst r) ! 3)
     (extract_audio_chunks (demo_env 5) empty_world ''in.mkv'' ''out'' 2)
     = Inr (ExtractChunk ''in.mkv'' 4 2 ''out/chunk_3.wav'') \<and>
   (4::rat) + 2 \<noteq> min ((2 + 1) * 2) 5"
  by (simp add: empty_world_def demo_env_def chunk_eval num_chunks_5_2 upt_3)

section \<open>Files are only added\<close>

lemma path_exists_iff: "path_exists w p \<longleftrightarrow> p \<in> fst ` set (fs w)"
  by (simp add: path_exists_def map_of_eq_None_iff)

lemma update_absent: "k \<notin> fst ` set al \<Longrightarrow> AList.update k v al = al @ [(k, v)]"
  by (induction al) auto

lemma path_exists_mono:
  "map_of (fs w) \<subseteq>\<^sub>m map_of (fs w') \<Longrightarrow> path_exists w p \<Longrightarrow> path_exists w' p"
  by (auto simp: path_exists_def map_le_def dom_def)

lemma map_le_write_absent:
  "\<not> path_exists w p \<Longrightarrow> map_of (fs w) \<subseteq>\<^sub>m map_of (fs (write_file (w\<lparr>calls := cs\<rparr>) p c))"
  by (auto simp: path_exists_def write_file_def update_conv' map_le_def)

lemma fs_write_absent:
  "\<not> path_exists w p \<Longrightarrow> fs (write_file (w\<lparr>calls := cs\<rparr>) p c) = fs w @ [(p, c)]"
  by (simp add: write_file_def path_exists_iff update_absent)

lemma child_name_join: "child_name out (dir_prefix out @ x) = Some f \<Longrightarrow> f = x"
  by (simp add: child_name_def Let_def split: if_splits)

lemma cache_files_fs_cong: "fs w' = fs w \<Longrightarrow> cache_files w' out thr = cache_files w out thr"
  by (simp add: cache_files_def listdir_def)

lemma cache_files_append:
  assumes "fs w' = fs w @ [(p, c)]"
    and "\<And>f. child_name out p = Some f \<Longrightarrow> \<not> is_cache_name thr f"
  shows "cache_files w' out thr = cache_files w out thr"
  using assms
  by (cases "child_name out p") (simp_all add: cache_files_def listdir_def List.map_filter_def)

text \<open>No split output has the name of a cache.\<close>

lemma json_suffix_after_dot:
  assumes "\<not> suffix ''json'' fmt"
  shows "\<not> suffix ''json'' (pre @ ''.'' @ fmt)"
proof
  assume "suffix ''json'' (pre @ ''.'' @ fmt)"
  then have "prefix ''nosj'' (rev fmt @ CHR ''.'' # rev pre)"
    by (simp add: suffix_to_prefix)
  then have "prefix ''nosj'' (rev fmt) \<or> (\<exists>us. ''nosj'' = rev fmt @ us \<and> prefix us (CHR ''.'' # rev pre))"
    by (simp add: prefix_append)
  then show False
  proof
    assume "prefix ''nosj'' (rev fmt)"
    with assms show False by (simp add: suffix_to_prefix)
  next
    assume "\<exists>us. ''nosj'' = rev fmt @ us \<and> prefix us (CHR ''.'' # rev pre)"
    then obtain us where u: "''nosj'' = rev fmt @ us" "prefix us (CHR ''.'' # rev pre)" by blast
    show False
    proof (cases us)
      case Nil
      with u have "rev fmt = ''nosj''" by simp
      with assms show False by (simp add: suffix_to_prefix)
    next
      case (Cons a us')
      with u(2) have "a = CHR ''.''" by simp
      with Cons have "CHR ''.'' \<in> set (rev fmt @ us)" by simp
      with u(1) have "CHR ''.'' \<in> set ''nosj''" by metis
      then show False by simp
    qed
  qed
qed

lemma cache_suffix_json: "suffix (cache_suffix thr) f \<Longrightarrow> suffix ''json'' f"
proof -
  assume "suffix (cache_suffix thr) f"
  then obtain zs where "f = zs @ cache_suffix thr" by (auto simp: suffix_def)
  then have "f = (zs @ ''_silence_'' @ string_of_int thr @ ''.'') @ ''json''"
    by (simp add: cache_suffix_def)
  then show ?thesis unfolding suffix_def by blast
qed

lemma split_audio_not_cache:
  assumes "\<not> suffix ''json'' fmt"
    and "child_name out (split_audio_path out n fmt) = Some f"
  shows "\<not> is_cache_name thr f"
proof -
  from assms(2) have "f = (''split_'' @ string_of_nat (n + 1)) @ ''.'' @ fmt"
    by (auto simp: split_audio_path_eq dest: child_name_join)
  with json_suffix_after_dot [OF assms(1), of "''split_'' @ string_of_nat (n + 1)"]
  have "\<not> suffix ''json'' f" by simp
  then show ?thesis by (auto simp: is_cache_name_def dest: cache_suffix_json)
qed

lemma split_image_not_cache:
  assumes "child_name out (split_image_path out n) = Some f"
  shows "\<not> is_cache_name thr f"
proof -
  from assms have "f = (''split_'' @ string_of_nat (n + 1)) @ ''.'' @ ''jpg''"
    by (auto simp: split_image_path_eq dest: child_name_join)
  moreover have "\<not> suffix ''json'' ''jpg''" by (simp add: suffix_to_prefix)
  ultimately have "\<not> suffix ''json'' f"
    using json_suffix_after_dot [of "''jpg''" "''split_'' @ string_of_nat (n + 1)"] by simp
  then show ?thesis by (auto simp: is_cache_name_def dest: cache_suffix_json)
qed

text \<open>Making an output unless it is there: what it does to the world.\<close>

lemma make_unless_exists:
  assumes "(if path_exists w p then Inr w else engine_run E w c p) = Inr w'"
  shows "path_exists w' p"
    and "map_of (fs w) \<subseteq>\<^sub>m map_of (fs w')"
    and "fs w' = fs w \<or> fs w' = fs w @ [(p, EngineOutput c)]"
  using assms
  by (auto simp: engine_run_Inr map_le_write_absent fs_write_absent split: if_splits)

lemma make_unless_exists_caches:
  assumes "(if path_exists w p then Inr w else engine_run E w c p) = Inr w'"
    and "\<And>f. child_name out p = Some f \<Longrightarrow> \<not> is_cache_name thr f"
  shows "cache_files w' out thr = cache_files w out thr"
  using make_unless_exists(3) [OF assms(1)] assms(2)
  by (auto intro: cache_files_fs_cong cache_files_append)


section \<open>Running the splitter again\<close>

lemma frame_unless_exists:
  "(if path_exists w p then Inr w else extract_middle_frame E w mkv a b p)
     = (if path_exists w p then Inr w else engine_run E w (ExtractFrame mkv ((a + b) / 2) p) p)"
  by (simp add: extract_middle_frame_def)

lemma walk_preserves:
  assumes "walk_silences E mkv out codec fmt sil (w, pe, cnt) = Inr (w', pe', cnt')"
    and "\<not> suffix ''json'' fmt"
  shows "map_of (fs w) \<subseteq>\<^sub>m map_of (fs w') \<and> cache_files w' out thr = cache_files w out thr"
  using assms(1)
proof (induction sil arbitrary: w pe cnt)
  case Nil
  then show ?case by simp
next
  case (Cons x sil)
  obtain s e where x: "x = (s, e)" by (cases x)
  show ?case
  proof (cases "round_double (s - pe) < 10")
    case True
    with Cons.prems x have "walk_silences E mkv out codec fmt sil (w, e, cnt + 1) = Inr (w', pe', cnt')"
      by (simp add: walk_merge)
    from Cons.IH [OF this] show ?thesis .
  next
    case False
    let ?A = "split_audio_path out cnt fmt" and ?I = "split_image_path out cnt"
    from False Cons.prems x obtain w1 w2 where
      1: "(if path_exists w ?A then Inr w
           else engine_run E w (ExtractSplit mkv pe (Some s) ?A codec fmt) ?A) = Inr w1"
      and 2: "(if path_exists w1 ?I then Inr w1
               else engine_run E w1 (ExtractFrame mkv ((pe + s) / 2) ?I) ?I) = Inr w2"
      and 3: "walk_silences E mkv out codec fmt sil (w2, e, cnt + 1) = Inr (w', pe', cnt')"
      by (auto simp: walk_emit ebind_eq_Inr frame_unless_exists)
    have c1: "cache_files w1 out thr = cache_files w out thr"
      using 1 by (rule make_unless_exists_caches) (rule split_audio_not_cache [OF assms(2)])
    have c2: "cache_files w2 out thr = cache_files w1 out thr"
      using 2 by (rule make_unless_exists_caches) (rule split_image_not_cache)
    from make_unless_exists(2) [OF 1] make_unless_exists(2) [OF 2] Cons.IH [OF 3] c1 c2
    show ?thesis by (auto intro: map_le_trans)
  qed
qed

lemma walk_rerun:
  assumes "walk_silences E mkv out codec fmt sil (w, pe, cnt) = Inr (w', pe', cnt')"
    and "\<not> suffix ''json'' fmt"
    and "\<And>p. path_exists w' p \<Longrightarrow> path_exists v p"
  shows "walk_silences E mkv out codec fmt sil (v, pe, cnt) = Inr (v, pe', cnt')"
  using assms(1)
proof (induction sil arbitrary: w pe cnt)
  case Nil
  then show ?case by simp
next
  case (Cons x sil)
  obtain s e where x: "x = (s, e)" by (cases x)
  show ?case
  proof (cases "round_double (s - pe) < 10")
    case True
    with Cons.prems x have "walk_silences E mkv out codec fmt sil (w, e, cnt + 1) = Inr (w', pe', cnt')"
      by (simp add: walk_merge)
    from Cons.IH [OF this] True x show ?thesis by (simp add: walk_merge)
  next
    case False
    let ?A = "split_audio_path out cnt fmt" and ?I = "split_image_path out cnt"
    from False Cons.prems x obtain w1 w2 where
      1: "(if path_exists w ?A then Inr w
           else engine_run E w (ExtractSplit mkv pe (Some s) ?A codec fmt) ?A) = Inr w1"
      and 2: "(if path_exists w1 ?I then Inr w1
               else engine_run E w1 (ExtractFrame mkv ((pe + s) / 2) ?I) ?I) = Inr w2"
      and 3: "walk_silences E mkv out codec fmt sil (w2, e, cnt + 1) = Inr (w', pe', cnt')"
      by (auto simp: walk_emit ebind_eq_Inr frame_unless_exists)
    from walk_preserves [OF 3 assms(2), of undefined] have m: "map_of (fs w2) \<subseteq>\<^sub>m map_of (fs w')"
      by simp
    from make_unless_exists(1) [OF 1] make_unless_exists(2) [OF 2]
    have "path_exists w2 ?A" by (rule path_exists_mono [rotated])
    with m have "path_exists w' ?A" by (rule path_exists_mono)
    then have a: "path_exists v ?A" by (rule assms(3))
    from make_unless_exists(1) [OF 2] m have "path_exists w' ?I" by (rule path_exists_mono [rotated])
    then have i: "path_exists v ?I" by (rule assms(3))
    from Cons.IH [OF 3] False x a i show ?thesis by (simp add: walk_emit)
  qed
qed

lemma final_split_unfold:
  "final_split E mkv out codec fmt (w, pe, cnt) =
     ebind (if path_exists w (split_audio_path out cnt fmt) then Inr w
            else engine_run E w (ExtractSplit mkv pe None (split_audio_path out cnt fmt) codec fmt)
                   (split_audio_path out cnt fmt))
       (\<lambda>w1. if path_exists w1 (split_image_path out cnt) then Inr w1
              else ebind (engine_probe E w1 mkv)
                     (\<lambda>(w2, info). extract_middle_frame E w2 mkv pe (duration info)
                                      (split_image_path out cnt)))"
  by (simp add: final_split_def Let_def)

lemma final_preserves:
  assumes "final_split E mkv out codec fmt (w, pe, cnt) = Inr w'"
    and "\<not> suffix ''json'' fmt"
  shows "map_of (fs w) \<subseteq>\<^sub>m map_of (fs w')"
    and "cache_files w' out thr = cache_files w out thr"
    and "path_exists w' (split_audio_path out cnt fmt)"
    and "path_exists w' (split_image_path out cnt)"
proof -
  let ?A = "split_audio_path out cnt fmt" and ?I = "split_image_path out cnt"
  from assms(1) obtain w1 where
    1: "(if path_exists w ?A then Inr w
         else engine_run E w (ExtractSplit mkv pe None ?A codec fmt) ?A) = Inr w1"
    and 2: "(if path_exists w1 ?I then Inr w1
             else ebind (engine_probe E w1 mkv)
                    (\<lambda>(w2, info). extract_middle_frame E w2 mkv pe (duration info) ?I)) = Inr w'"
    by (auto simp: final_split_unfold ebind_eq_Inr)
  have c1: "cache_files w1 out thr = cache_files w out thr"
    using 1 by (rule make_unless_exists_caches) (rule split_audio_not_cache [OF assms(2)])
  note m1 = make_unless_exists(2) [OF 1] and a1 = make_unless_exists(1) [OF 1]
  have step: "path_exists w' ?I \<and> map_of (fs w1) \<subseteq>\<^sub>m map_of (fs w') \<and>
              cache_files w' out thr = cache_files w1 out thr"
  proof (cases "path_exists w1 ?I")
    case True
    with 2 show ?thesis by simp
  next
    case False
    with 2 obtain info :: probe_info where
      "engine_run E (w1\<lparr>calls := calls w1 @ [Probe mkv]\<rparr>)
         (ExtractFrame mkv ((pe + duration info) / 2) ?I) ?I = Inr w'"
      by (auto simp: ebind_eq_Inr engine_probe_Inr extract_middle_frame_def)
    then have w': "w' = write_file (w1\<lparr>calls := calls w1 @ [Probe mkv,
                         ExtractFrame mkv ((pe + duration info) / 2) ?I]\<rparr>) ?I
                       (EngineOutput (ExtractFrame mkv ((pe + duration info) / 2) ?I))"
      by (simp add: engine_run_Inr)
    from False have f: "fs w' = fs w1 @ [(?I, EngineOutput (ExtractFrame mkv ((pe + duration info) / 2) ?I))]"
      unfolding w' by (rule fs_write_absent)
    have "cache_files w' out thr = cache_files w1 out thr"
      using f by (rule cache_files_append) (rule split_image_not_cache)
    moreover from False have "map_of (fs w1) \<subseteq>\<^sub>m map_of (fs w')"
      unfolding w' by (rule map_le_write_absent)
    moreover have "path_exists w' ?I" unfolding w' by simp
    ultimately show ?thesis by simp
  qed
  from m1 step show "map_of (fs w) \<subseteq>\<^sub>m map_of (fs w')" by (auto intro: map_le_trans)
  from c1 step show "cache_files w' out thr = cache_files w out thr" by simp
  from a1 step show "path_exists w' ?A" by (auto intro: path_exists_mono)
  from step show "path_exists w' ?I" by simp
qed

lemma final_rerun:
  assumes "path_exists v (split_audio_path out cnt fmt)" "path_exists v (split_image_path out cnt)"
  shows "final_split E mkv out codec fmt (v, pe, cnt) = Inr v"
  using assms by (simp add: final_split_unfold)


lemma load_json_Inr: "load_json w p = Inr x \<longleftrightarrow> map_of (fs w) p = Some (JsonFile x)"
  by (auto simp: load_json_def split: option.splits content.splits)

lemma load_silences_mono:
  assumes "map_of (fs w) \<subseteq>\<^sub>m map_of (fs v)"
  shows "load_silences w out d cfs acc = Inr sil \<Longrightarrow> load_silences v out d cfs acc = Inr sil"
proof (induction cfs arbitrary: acc)
  case Nil
  then show ?case by simp
next
  case (Cons f cfs)
  from Cons.prems obtain x adj where
    1: "load_json w (path_join out f) = Inr x"
    and 2: "adjust_silences f d x = Inr adj"
    and 3: "load_silences w out d cfs (acc @ adj) = Inr sil"
    by (auto simp: ebind_eq_Inr)
  from 1 assms have "load_json v (path_join out f) = Inr x"
    by (auto simp: load_json_Inr map_le_def dom_def)
  with 2 Cons.IH [OF 3] show ?case by simp
qed

lemma get_audio_codec_again:
  "get_audio_codec E w mkv = Inr (w2, codec, fmt) \<Longrightarrow>
   get_audio_codec E v mkv = Inr (v\<lparr>calls := calls v @ [Probe mkv]\<rparr>, codec, fmt)"
proof -
  assume a: "get_audio_codec E w mkv = Inr (w2, codec, fmt)"
  then obtain info where p: "probe E mkv = Some info"
    by (cases "probe E mkv") (auto simp: get_audio_codec_def engine_probe_def)
  with a show ?thesis
    by (cases "filter (\<lambda>s. fst s = ''audio'') (streams info)")
       (auto simp: get_audio_codec_def engine_probe_def)
qed

lemma split_rerun:
  assumes run: "split_original_by_silence E w mkv out d thr = Inr w'"
    and info: "probe E mkv = Some info"
    and fmt: "\<not> suffix ''json'' (hd (py_split '','' (format_name info)))"
    and dir: "path_exists w out"
    and v: "fs v = fs w'"
  shows "split_original_by_silence E v mkv out d thr = Inr (v\<lparr>calls := calls v @ [Probe mkv]\<rparr>)"
    and "map_of (fs w) \<subseteq>\<^sub>m map_of (fs w')"
proof -
  let ?cfs = "sort_chunks (cache_files w out thr)"
  from run dir obtain w2 codec f sil w3 pe cnt where
    2: "get_audio_codec E w mkv = Inr (w2, codec, f)"
    and 3: "load_silences w2 out d ?cfs [] = Inr sil"
    and 4: "walk_silences E mkv out codec f sil (w2, 0, 0) = Inr (w3, pe, cnt)"
    and 5: "final_split E mkv out codec f (w3, pe, cnt) = Inr w'"
    by (auto simp: split_original_by_silence_def ensure_dir_def Let_def ebind_eq_Inr)
  from get_audio_codec_Inr [OF 2] info have w2: "fs w2 = fs w" and f: "f = hd (py_split '','' (format_name info))"
    by auto
  with fmt have nf: "\<not> suffix ''json'' f" by simp
  note W = walk_preserves [OF 4 nf, where thr = thr]
  note F = final_preserves [OF 5 nf]
  from W F(1) w2 show le: "map_of (fs w) \<subseteq>\<^sub>m map_of (fs w')"
    by (auto intro: map_le_trans)
  let ?v2 = "v\<lparr>calls := calls v @ [Probe mkv]\<rparr>"
  have ex: "path_exists w' p \<Longrightarrow> path_exists ?v2 p" for p
    using v by (simp add: path_exists_def)
  have dv: "path_exists v out"
    using path_exists_mono [OF le dir] v by (simp add: path_exists_def)
  have cf: "cache_files v out thr = cache_files w out thr"
    using W F(2) cache_files_fs_cong [OF v, of out thr] cache_files_fs_cong [OF w2, of out thr]
    by simp
  have g: "get_audio_codec E v mkv = Inr (?v2, codec, f)"
    using 2 by (rule get_audio_codec_again)
  have "map_of (fs w2) \<subseteq>\<^sub>m map_of (fs ?v2)"
    using le w2 v by simp
  then have l: "load_silences ?v2 out d ?cfs [] = Inr sil"
    using 3 by (rule load_silences_mono)
  have wk: "walk_silences E mkv out codec f sil (?v2, 0, 0) = Inr (?v2, pe, cnt)"
  proof (rule walk_rerun [OF 4 nf])
    fix p assume "path_exists w3 p"
    with F(1) have "path_exists w' p" by (rule path_exists_mono)
    then show "path_exists ?v2 p" by (rule ex)
  qed
  have fin: "final_split E mkv out codec f (?v2, pe, cnt) = Inr ?v2"
    using F(3,4) by (intro final_rerun ex)
  from dv cf g l wk fin
  show "split_original_by_silence E v mkv out d thr = Inr ?v2"
    by (simp add: split_original_by_silence_def ensure_dir_def Let_def)
qed


section \<open>Running the chunker and the detector again\<close>

lemma chunk_loop_post:
  "chunk_loop E mkv out d js (w, acc) = Inr (w', files) \<Longrightarrow>
   files = acc @ map (chunk_path out) js \<and> map_of (fs w) \<subseteq>\<^sub>m map_of (fs w') \<and>
   (\<forall>j\<in>set js. path_exists w' (chunk_path out j))"
proof (induction js arbitrary: w acc)
  case Nil
  then show ?case by simp
next
  case (Cons i js)
  let ?p = "chunk_path out i"
  from Cons.prems obtain w1 where
    1: "(if path_exists w ?p then Inr w
         else engine_run E w (ExtractChunk mkv (int i * d) d ?p) ?p) = Inr w1"
    and 2: "chunk_loop E mkv out d js (w1, acc @ [?p]) = Inr (w', files)"
    by (auto simp: chunk_loop_Cons ebind_eq_Inr)
  from Cons.IH [OF 2] have f: "files = (acc @ [?p]) @ map (chunk_path out) js"
    and m: "map_of (fs w1) \<subseteq>\<^sub>m map_of (fs w')"
    and e: "\<forall>j\<in>set js. path_exists w' (chunk_path out j)"
    by simp_all
  from make_unless_exists(1) [OF 1] m have "path_exists w' ?p" by (rule path_exists_mono [rotated])
  with f e make_unless_exists(2) [OF 1] m show ?case by (auto intro: map_le_trans)
qed

lemma chunk_loop_rerun:
  "\<forall>j\<in>set js. path_exists v (chunk_path out j) \<Longrightarrow>
   chunk_loop E mkv out d js (v, acc) = Inr (v, acc @ map (chunk_path out) js)"
  by (induction js arbitrary: acc) (simp_all add: chunk_loop_Cons)

lemma extract_post:
  assumes "extract_audio_chunks E w mkv out d = Inr (w', files)"
  shows "\<exists>info. probe E mkv = Some info \<and> d \<noteq> 0 \<and>
           files = map (chunk_path out) [0 ..< nat (num_chunks (duration info) d)] \<and>
           map_of (fs w) \<subseteq>\<^sub>m map_of (fs w') \<and> path_exists w' out \<and>
           (\<forall>j < nat (num_chunks (duration info) d). path_exists w' (chunk_path out j))"
proof -
  from assms obtain w1 w2 and info :: probe_info where
    1: "ensure_dir w out = Inr w1"
    and 2: "engine_probe E w1 mkv = Inr (w2, info)"
    and 3: "d \<noteq> 0"
    and 4: "chunk_loop E mkv out d [0 ..< nat (num_chunks (duration info) d)] (w2, []) = Inr (w', files)"
    by (auto simp: extract_audio_chunks_def ebind_eq_Inr split: if_splits)
  from 1 have m1: "map_of (fs w) \<subseteq>\<^sub>m map_of (fs w1)" and e1: "path_exists w1 out"
    by (auto simp: ensure_dir_def path_exists_def write_file_def update_conv' map_le_def
          split: if_splits)
  from 2 have p: "probe E mkv = Some info" and w2: "fs w2 = fs w1"
    by (auto simp: engine_probe_Inr)
  from chunk_loop_post [OF 4] have f: "files = map (chunk_path out) [0 ..< nat (num_chunks (duration info) d)]"
    and m2: "map_of (fs w2) \<subseteq>\<^sub>m map_of (fs w')"
    and e2: "\<forall>j < nat (num_chunks (duration info) d). path_exists w' (chunk_path out j)"
    by simp_all
  from m1 m2 w2 have m: "map_of (fs w) \<subseteq>\<^sub>m map_of (fs w')" by (auto intro: map_le_trans)
  from m2 w2 have "map_of (fs w1) \<subseteq>\<^sub>m map_of (fs w')" by simp
  then have "path_exists w' out" using e1 by (rule path_exists_mono)
  with p 3 f m e2 show ?thesis by blast
qed

lemma extract_rerun:
  assumes "probe E mkv = Some info" "d \<noteq> 0" "path_exists v out"
    and "\<forall>j < nat (num_chunks (duration info) d). path_exists v (chunk_path out j)"
  shows "extract_audio_chunks E v mkv out d =
           Inr (v\<lparr>calls := calls v @ [Probe mkv]\<rparr>,
                map (chunk_path out) [0 ..< nat (num_chunks (duration info) d)])"
proof -
  let ?v2 = "v\<lparr>calls := calls v @ [Probe mkv]\<rparr>"
  from assms(4) have "\<forall>j\<in>set [0 ..< nat (num_chunks (duration info) d)]. path_exists ?v2 (chunk_path out j)"
    by simp
  from chunk_loop_rerun [OF this, of E mkv d "[]"] assms(1-3) show ?thesis
    by (simp add: extract_audio_chunks_def ensure_dir_def engine_probe_def)
qed

lemma detect_loop_Cons:
  "detect_loop E thr sd (f # rest) w =
     ebind (if path_exists w (silence_cache_file f thr) then Inr w
            else ebind (detect_silence E w f thr sd)
                   (\<lambda>(w', silences). Inr (write_file w' (silence_cache_file f thr) (JsonFile (silence_json silences)))))
       (detect_loop E thr sd rest)"
  by (simp add: Let_def)

declare detect_loop.simps(2) [simp del]

lemma detect_silence_Inr:
  "detect_silence E w f thr sd = Inr (w1, sil) \<Longrightarrow> w1 = w\<lparr>calls := calls w @ [SilenceDetect f thr sd]\<rparr>"
  by (auto simp: detect_silence_def decode_utf8_def Let_def ebind_eq_Inr split: if_splits)

lemma detect_loop_post:
  "detect_loop E thr sd files w = Inr w' \<Longrightarrow>
   map_of (fs w) \<subseteq>\<^sub>m map_of (fs w') \<and> (\<forall>f\<in>set files. path_exists w' (silence_cache_file f thr))"
proof (induction files arbitrary: w)
  case Nil
  then show ?case by simp
next
  case (Cons f files)
  let ?c = "silence_cache_file f thr"
  from Cons.prems obtain w1 where
    1: "(if path_exists w ?c then Inr w
         else ebind (detect_silence E w f thr sd)
                (\<lambda>(w', silences). Inr (write_file w' ?c (JsonFile (silence_json silences))))) = Inr w1"
    and 2: "detect_loop E thr sd files w1 = Inr w'"
    by (auto simp: detect_loop_Cons ebind_eq_Inr)
  have s: "map_of (fs w) \<subseteq>\<^sub>m map_of (fs w1) \<and> path_exists w1 ?c"
  proof (cases "path_exists w ?c")
    case True
    with 1 show ?thesis by simp
  next
    case False
    with 1 obtain wd sil where "detect_silence E w f thr sd = Inr (wd, sil)"
      and w1: "w1 = write_file wd ?c (JsonFile (silence_json sil))"
      by (auto simp: ebind_eq_Inr)
    from detect_silence_Inr [OF this(1)] w1 False show ?thesis
      by (simp add: map_le_write_absent)
  qed
  from Cons.IH [OF 2] have m: "map_of (fs w1) \<subseteq>\<^sub>m map_of (fs w')"
    and e: "\<forall>f\<in>set files. path_exists w' (silence_cache_file f thr)" by simp_all
  from s m have "path_exists w' ?c" by (auto intro: path_exists_mono)
  with s m e show ?case by (auto intro: map_le_trans)
qed

lemma detect_loop_rerun:
  "\<forall>f\<in>set files. path_exists v (silence_cache_file f thr) \<Longrightarrow> detect_loop E thr sd files v = Inr v"
  by (induction files) (simp_all add: detect_loop_Cons)

text \<open>
  C6 (amended). After a run of the whole pipeline that succeeded, a second run on the same
  inputs succeeds, leaves every file as it is (so the caches are unchanged) and asks the
  engine for nothing but two probes of the source: no chunk is extracted, no silence
  detection runs, no split and no frame is made. The container format reported by the
  probe is assumed not to end in \<open>json\<close>, so that no split file is taken for a cache.
\<close>

theorem second_run_only_probes:
  assumes "process_mkv_file E w0 mkv out d thr sd = Inr w1"
    and "probe E mkv = Some info"
    and "\<not> suffix ''json'' (hd (py_split '','' (format_name info)))"
  shows "process_mkv_file E w1 mkv out d thr sd = Inr (w1\<lparr>calls := calls w1 @ [Probe mkv, Probe mkv]\<rparr>)"
proof -
  from assms(1) obtain wB files wC where
    B: "extract_audio_chunks E w0 mkv out d = Inr (wB, files)"
    and C: "detect_loop E thr sd files wB = Inr wC"
    and D: "split_original_by_silence E wC mkv out d thr = Inr w1"
    by (auto simp: process_mkv_file_def ebind_eq_Inr)
  let ?n = "nat (num_chunks (duration info) d)"
  from extract_post [OF B] assms(2) have d: "d \<noteq> 0"
    and f: "files = map (chunk_path out) [0 ..< ?n]"
    and dirB: "path_exists wB out"
    and chB: "\<forall>j < ?n. path_exists wB (chunk_path out j)"
    by auto
  from detect_loop_post [OF C] have mC: "map_of (fs wB) \<subseteq>\<^sub>m map_of (fs wC)"
    and caC: "\<forall>f\<in>set files. path_exists wC (silence_cache_file f thr)" by simp_all
  from mC dirB have dirC: "path_exists wC out" by (rule path_exists_mono)
  let ?v = "w1\<lparr>calls := calls w1 @ [Probe mkv]\<rparr>"
  have fv: "fs ?v = fs w1" by simp
  note R = split_rerun [OF D assms(2,3) dirC fv]
  from mC R(2) have m1: "map_of (fs wB) \<subseteq>\<^sub>m map_of (fs w1)" by (rule map_le_trans)
  from m1 dirB have dir1: "path_exists w1 out" by (rule path_exists_mono)
  from m1 chB have ch1: "\<forall>j < ?n. path_exists w1 (chunk_path out j)"
    by (auto intro: path_exists_mono)
  from R(2) caC have "\<forall>f\<in>set files. path_exists w1 (silence_cache_file f thr)"
    by (auto intro: path_exists_mono)
  then have ca1: "\<forall>f\<in>set files. path_exists ?v (silence_cache_file f thr)" by simp
  have B2: "extract_audio_chunks E w1 mkv out d = Inr (?v, files)"
    unfolding f by (rule extract_rerun [OF assms(2) d dir1 ch1])
  have C2: "detect_loop E thr sd files ?v = Inr ?v"
    using ca1 by (rule detect_loop_rerun)
  from B2 C2 R(1) show ?thesis by (simp add: process_mkv_file_def)
qed


lemmas pipeline_eval =
  process_mkv_file_def detect_loop.simps(2) silence_cache_file_def splitext_root_def
  detect_silence_def decode_utf8_def utf8_eval parse_stderr_def splitlines_eval demo_stderr_def

lemma first_run:
  "process_mkv_file (demo_env 5400) empty_world ''in.mkv'' ''out'' 2700 (- 40) 2 = Inr done_world"
  by (simp add: done_world_def empty_world_def demo_env_def pipeline_eval chunk_eval
        num_chunks_5400_2700 upt_2 parser_eval world_eval)

theorem second_run_only_probes_witness:
  "process_mkv_file (demo_env 5400) empty_world ''in.mkv'' ''out'' 2700 (- 40) 2 = Inr done_world \<and>
   process_mkv_file (demo_env 5400) done_world ''in.mkv'' ''out'' 2700 (- 40) 2
     = Inr (done_world\<lparr>calls := calls done_world @ [Probe ''in.mkv'', Probe ''in.mkv'']\<rparr>)"
proof -
  let ?info = "\<lparr>streams = [(''video'', ''h264''), (''audio'', ''aac'')],
                 format_name = ''matroska,webm'', duration = 5400\<rparr>"
  have p: "probe (demo_env 5400) ''in.mkv'' = Some ?info" by (simp add: demo_env_def)
  have f: "\<not> suffix ''json'' (hd (py_split '','' (format_name ?info)))"
    by (simp add: py_split_def suffix_to_prefix)
  from second_run_only_probes [OF first_run p f] first_run show ?thesis by simp
qed

theorem second_run_probes_counterexample:
  "map_sum id (new_calls done_world)
     (process_mkv_file (demo_env 5400) done_world ''in.mkv'' ''out'' 2700 (- 40) 2)
   = Inr [Probe ''in.mkv'', Probe ''in.mkv'']"
  by (simp add: done_world_def demo_env_def pipeline_eval chunk_eval
        num_chunks_5400_2700 upt_2 world_eval int_eval new_calls_def)

section \<open>The name of a chunk's cache\<close>

lemma string_of_nat_plain: "c \<in> set (string_of_nat n) \<Longrightarrow> c \<noteq> CHR ''/'' \<and> c \<noteq> CHR ''.''"
  using string_of_nat_digits [of n] is_digit_not_special by (auto simp: list_all_iff)

lemma splitext_root_wav:
  assumes "\<And>c. c \<in> set stem \<Longrightarrow> c \<noteq> CHR ''/'' \<and> c \<noteq> CHR ''.''" "stem \<noteq> []"
  shows "splitext_root (pre @ stem @ ''.wav'') = pre @ stem"
proof -
  let ?p = "pre @ stem @ ''.wav''"
  let ?q = "rev (takeWhile (\<lambda>c. c \<noteq> CHR ''/'') (rev pre))"
  have "takeWhile (\<lambda>c. c \<noteq> CHR ''/'') (rev ?p)
          = (''vaw.'' @ rev stem) @ takeWhile (\<lambda>c. c \<noteq> CHR ''/'') (rev pre)"
  proof -
    have "takeWhile (\<lambda>c. c \<noteq> CHR ''/'') (rev stem @ rev pre)
            = rev stem @ takeWhile (\<lambda>c. c \<noteq> CHR ''/'') (rev pre)"
      using assms(1) by (intro takeWhile_append2) simp
    then show ?thesis by simp
  qed
  then have base: "rev (takeWhile (\<lambda>c. c \<noteq> CHR ''/'') (rev ?p)) = ?q @ stem @ ''.wav''"
    by simp
  have ext: "rev (takeWhile (\<lambda>c. c \<noteq> CHR ''.'') (rev (?q @ stem @ ''.wav''))) = ''wav''"
    by simp
  have ne: "filter (\<lambda>c. c \<noteq> CHR ''.'') (?q @ stem) \<noteq> []"
    using assms by (cases stem) auto
  show ?thesis
    unfolding splitext_root_def base Let_def ext using ne by simp
qed

lemma cache_of_chunk:
  "silence_cache_file (chunk_path out i) thr = path_join out (cache_name (i + 1) thr)"
proof -
  have "splitext_root (dir_prefix out @ (''chunk_'' @ string_of_nat (i + 1)) @ ''.wav'')
          = dir_prefix out @ (''chunk_'' @ string_of_nat (i + 1))"
    by (rule splitext_root_wav) (auto dest: string_of_nat_plain)
  then show ?thesis
    by (simp add: silence_cache_file_def chunk_path_eq cache_name_def path_join_child)
qed

end
